theory Spec2Isabelle
  imports Main
begin

section \<open>The accounting forwarder (forwarder.py)\<close>

text \<open>
  The forwarder reads rows of the PostgreSQL table \<open>radacct\<close> whose column
  \<open>forwarded_to_ch\<close> is false, turns each into a row of the ClickHouse table
  \<open>radius_accounting\<close>, inserts the batch and then sets \<open>forwarded_to_ch\<close>.
  Everything the program does to the two stores is made explicit here: the stores
  are values, a raised exception is the \<open>Inl\<close> branch of a sum, and whatever the
  outside world decides (whether a call to a store fails, what the clock reads,
  whether the shutdown signal has arrived) is an argument of the function.
\<close>

subsection \<open>Values delivered by the database driver\<close>

text \<open>
  A column value as psycopg2 hands it to the program: \<open>None\<close> for SQL NULL, a
  \<open>str\<close> for text (and for \<open>host(inet)\<close>), an \<open>int\<close> for bigint, a \<open>datetime\<close>
  for a timestamp. The type \<open>'dt\<close> stands for Python's \<open>datetime\<close>.
\<close>

datatype 'dt pyval = PNone | PStr string | PInt int | PDatetime 'dt

datatype error = PgError | ChError | ValueError | TypeError | RuntimeError

text \<open>Python's truth value, as \<open>x or y\<close> tests it; a datetime is always true.\<close>

fun py_truthy :: "'dt pyval \<Rightarrow> bool" where
  "py_truthy PNone = False"
| "py_truthy (PStr s) = (s \<noteq> [])"
| "py_truthy (PInt n) = (n \<noteq> 0)"
| "py_truthy (PDatetime d) = True"

text \<open>\<open>isinstance(val, datetime)\<close>.\<close>

fun is_datetime :: "'dt pyval \<Rightarrow> bool" where
  "is_datetime (PDatetime d) = True"
| "is_datetime v = False"

text \<open>Decimal digits of a natural number, most significant first.\<close>

fun digits :: "nat \<Rightarrow> string" where
  "digits n =
     (if n < 10 then [char_of (48 + n)]
      else digits (n div 10) @ [char_of (48 + n mod 10)])"

text \<open>
  The language runtime and the process configuration. \<open>str\<close> of a datetime and
  \<open>int\<close> of a string are builtins whose definitions are not part of the
  repository; they are taken as given (\<open>int_of_str s = None\<close> when \<open>int(s)\<close>
  raises ValueError). \<open>BATCH_SIZE\<close> and \<open>EDGE_SITE_ID\<close> are read from the process
  environment at start-up.
\<close>

record 'dt runtime =
  BATCH_SIZE :: int
  EDGE_SITE_ID :: string
  str_of_datetime :: "'dt \<Rightarrow> string"
  int_of_str :: "string \<Rightarrow> int option"

text \<open>The builtin \<open>str(val)\<close>; it never raises on these values.\<close>

fun py_str :: "'dt runtime \<Rightarrow> 'dt pyval \<Rightarrow> string" where
  "py_str rt PNone = ''None''"
| "py_str rt (PStr s) = s"
| "py_str rt (PInt n) = (if n < 0 then CHR ''-'' # digits (nat (- n)) else digits (nat n))"
| "py_str rt (PDatetime d) = str_of_datetime rt d"

text \<open>The builtin \<open>int(val)\<close>: TypeError on None and on a datetime.\<close>

fun py_int :: "'dt runtime \<Rightarrow> 'dt pyval \<Rightarrow> error + int" where
  "py_int rt PNone = Inl TypeError"
| "py_int rt (PStr s) = (case int_of_str rt s of None \<Rightarrow> Inl ValueError | Some n \<Rightarrow> Inr n)"
| "py_int rt (PInt n) = Inr n"
| "py_int rt (PDatetime d) = Inl TypeError"

subsection \<open>Rows of the two tables\<close>

text \<open>
  The columns FETCH_QUERY selects, under the names the row dictionary
  \<open>dict(zip(columns, row_tuple))\<close> gives them. The key set is fixed by the query,
  so a lookup \<open>row["..."]\<close> cannot raise KeyError and the dictionary is a record.
  \<open>radacctid\<close> is the table's integer key; \<open>nasipaddress\<close> and \<open>framedipaddress\<close>
  hold the text \<open>host(...)\<close> returns.
\<close>

record 'dt row =
  radacctid :: int
  acctsessionid :: "'dt pyval"
  acctuniqueid :: "'dt pyval"
  username :: "'dt pyval"
  realm :: "'dt pyval"
  nasipaddress :: "'dt pyval"
  nasportid :: "'dt pyval"
  nasporttype :: "'dt pyval"
  acctstarttime :: "'dt pyval"
  acctupdatetime :: "'dt pyval"
  acctstoptime :: "'dt pyval"
  acctinterval :: "'dt pyval"
  acctsessiontime :: "'dt pyval"
  acctauthentic :: "'dt pyval"
  connectinfo_start :: "'dt pyval"
  connectinfo_stop :: "'dt pyval"
  acctinputoctets :: "'dt pyval"
  acctoutputoctets :: "'dt pyval"
  calledstationid :: "'dt pyval"
  callingstationid :: "'dt pyval"
  acctterminatecause :: "'dt pyval"
  servicetype :: "'dt pyval"
  framedprotocol :: "'dt pyval"
  framedipaddress :: "'dt pyval"

text \<open>
  A row of the dictionaries appended to \<open>ch_rows\<close>; the keys are those of the
  literal in \<open>forward_batch\<close>, prefixed with \<open>ch_\<close>.
\<close>

record 'dt ch_row =
  ch_radacctid :: int
  ch_acctsessionid :: string
  ch_acctuniqueid :: string
  ch_username :: string
  ch_realm :: string
  ch_nasipaddress :: string
  ch_nasportid :: string
  ch_nasporttype :: string
  ch_acctstarttime :: "'dt pyval"
  ch_acctupdatetime :: "'dt option"
  ch_acctstoptime :: "'dt option"
  ch_acctinterval :: int
  ch_acctsessiontime :: int
  ch_acctauthentic :: string
  ch_connectinfo_start :: string
  ch_connectinfo_stop :: string
  ch_acctinputoctets :: int
  ch_acctoutputoctets :: int
  ch_calledstationid :: string
  ch_callingstationid :: string
  ch_acctterminatecause :: string
  ch_servicetype :: string
  ch_framedprotocol :: string
  ch_framedipaddress :: string
  ch_event_type :: string
  ch_edge_site_id :: string

subsection \<open>The helpers of the transform\<close>

definition determine_event_type :: "'dt row \<Rightarrow> string" where
  "determine_event_type row =
     (if acctstoptime row \<noteq> PNone then ''stop''
      else if acctupdatetime row \<noteq> PNone then ''interim''
      else ''start'')"

definition safe_str :: "'dt runtime \<Rightarrow> 'dt pyval \<Rightarrow> string" where
  "safe_str rt val = (if val = PNone then '''' else py_str rt val)"

definition safe_int :: "'dt runtime \<Rightarrow> 'dt pyval \<Rightarrow> error + int" where
  "safe_int rt val = (if val = PNone then Inr 0 else py_int rt val)"

definition safe_datetime :: "'dt pyval \<Rightarrow> 'dt option" where
  "safe_datetime val =
     (if val = PNone then None
      else (case val of PDatetime d \<Rightarrow> Some d | _ \<Rightarrow> None))"

text \<open>
  The body of the \<open>for\<close> loop of \<open>forward_batch\<close>: the dictionary built from one
  fetched row. \<open>now\<close> is what \<open>datetime.now(timezone.utc)\<close> returns at that
  moment. The values are computed in the order of the literal's keys, so the
  first \<open>safe_int\<close> that raises decides the exception.
\<close>

definition transform :: "'dt runtime \<Rightarrow> 'dt \<Rightarrow> 'dt row \<Rightarrow> error + 'dt ch_row" where
  "transform rt now row =
     (let event_type = determine_event_type row in
      (case safe_int rt (acctinterval row) of Inl e \<Rightarrow> Inl e | Inr interval \<Rightarrow>
      (case safe_int rt (acctsessiontime row) of Inl e \<Rightarrow> Inl e | Inr sessiontime \<Rightarrow>
      (case safe_int rt (acctinputoctets row) of Inl e \<Rightarrow> Inl e | Inr inputoctets \<Rightarrow>
      (case safe_int rt (acctoutputoctets row) of Inl e \<Rightarrow> Inl e | Inr outputoctets \<Rightarrow>
      Inr \<lparr> ch_radacctid = radacctid row,
            ch_acctsessionid = safe_str rt (acctsessionid row),
            ch_acctuniqueid = safe_str rt (acctuniqueid row),
            ch_username = safe_str rt (username row),
            ch_realm = safe_str rt (realm row),
            ch_nasipaddress = safe_str rt (nasipaddress row),
            ch_nasportid = safe_str rt (nasportid row),
            ch_nasporttype = safe_str rt (nasporttype row),
            ch_acctstarttime =
              (if py_truthy (acctstarttime row) then acctstarttime row else PDatetime now),
            ch_acctupdatetime = safe_datetime (acctupdatetime row),
            ch_acctstoptime = safe_datetime (acctstoptime row),
            ch_acctinterval = interval,
            ch_acctsessiontime = sessiontime,
            ch_acctauthentic = safe_str rt (acctauthentic row),
            ch_connectinfo_start = safe_str rt (connectinfo_start row),
            ch_connectinfo_stop = safe_str rt (connectinfo_stop row),
            ch_acctinputoctets = inputoctets,
            ch_acctoutputoctets = outputoctets,
            ch_calledstationid = safe_str rt (calledstationid row),
            ch_callingstationid = safe_str rt (callingstationid row),
            ch_acctterminatecause = safe_str rt (acctterminatecause row),
            ch_servicetype = safe_str rt (servicetype row),
            ch_framedprotocol = safe_str rt (framedprotocol row),
            ch_framedipaddress = safe_str rt (framedipaddress row),
            ch_event_type = event_type,
            ch_edge_site_id = EDGE_SITE_ID rt \<rparr>)))))"

subsection \<open>The two stores and the three statements\<close>

text \<open>
  A stored row of \<open>radacct\<close>: its columns and the flag \<open>forwarded_to_ch\<close>. The
  table is a list in storage order, which the queries do not depend on beyond
  the tie-break of equal keys.
\<close>

record 'dt stored =
  cols :: "'dt row"
  forwarded_to_ch :: bool

record 'dt world =
  radacct :: "'dt stored list"
  radius_accounting :: "'dt ch_row list"

text \<open>\<open>COALESCE(host(framedipaddress), '')\<close> in the select list.\<close>

definition select_columns :: "'dt stored \<Rightarrow> 'dt row" where
  "select_columns s =
     (cols s)\<lparr> framedipaddress :=
       (if framedipaddress (cols s) = PNone then PStr '''' else framedipaddress (cols s)) \<rparr>"

text \<open>
  FETCH_QUERY with its parameter: WHERE, ORDER BY, LIMIT, then the select list.
  \<open>BATCH_SIZE\<close> is an unbounded Python integer, and PostgreSQL rejects with an
  error a LIMIT that is negative or does not fit a bigint (2^63 and above).
\<close>

definition FETCH_QUERY :: "int \<Rightarrow> 'dt stored list \<Rightarrow> error + 'dt row list" where
  "FETCH_QUERY limit tbl =
     (if limit < 0 \<or> 2 ^ 63 \<le> limit then Inl PgError
      else Inr (map select_columns
             (take (nat limit)
               (sort_key (\<lambda>s. radacctid (cols s))
                 (filter (\<lambda>s. \<not> forwarded_to_ch s) tbl)))))"

text \<open>MARK_FORWARDED_QUERY: one UPDATE statement, applied to every row whose key is in the list.\<close>

definition MARK_FORWARDED_QUERY :: "int list \<Rightarrow> 'dt stored list \<Rightarrow> 'dt stored list" where
  "MARK_FORWARDED_QUERY ids tbl =
     map (\<lambda>s. if radacctid (cols s) \<in> set ids then s\<lparr>forwarded_to_ch := True\<rparr> else s) tbl"

text \<open>INSERT_CH_QUERY: one bulk insert, which the sink takes whole or refuses whole.\<close>

definition INSERT_CH_QUERY :: "'dt ch_row list \<Rightarrow> 'dt ch_row list \<Rightarrow> 'dt ch_row list" where
  "INSERT_CH_QUERY ch_rows tbl = tbl @ ch_rows"

subsection \<open>One forward cycle\<close>

text \<open>
  What the outside world does during one call of \<open>forward_batch\<close>: whether each
  of the three \<open>execute\<close> calls raises, what the clock reads while the i-th
  fetched row is transformed, and what it reads when the caller stamps the
  metrics afterwards.
\<close>

record 'dt env =
  fetch_raises :: bool
  insert_raises :: bool
  mark_raises :: bool
  clock :: "nat \<Rightarrow> 'dt"
  clock_after :: 'dt

text \<open>
  The \<open>for row_tuple in rows\<close> loop with its two accumulators \<open>ch_rows\<close> and
  \<open>pg_ids\<close>; \<open>i\<close> counts the rows already handled.
\<close>

fun transform_rows ::
  "'dt runtime \<Rightarrow> (nat \<Rightarrow> 'dt) \<Rightarrow> nat \<Rightarrow> 'dt row list \<Rightarrow> 'dt ch_row list \<Rightarrow> int list
   \<Rightarrow> error + ('dt ch_row list \<times> int list)" where
  "transform_rows rt clk i [] ch_rows pg_ids = Inr (ch_rows, pg_ids)"
| "transform_rows rt clk i (row # rows) ch_rows pg_ids =
     (case transform rt (clk i) row of
        Inl e \<Rightarrow> Inl e
      | Inr c \<Rightarrow> transform_rows rt clk (Suc i) rows (ch_rows @ [c]) (pg_ids @ [radacctid row]))"

text \<open>
  \<open>forward_batch\<close> returns the exception or the count, together with the stores
  as the call leaves them. The connection runs in autocommit mode, so the
  UPDATE is committed when its \<open>execute\<close> returns. Each of the three calls is
  one statement, and one that raises is taken to have left its store as it was.
\<close>

definition forward_batch :: "'dt runtime \<Rightarrow> 'dt env \<Rightarrow> 'dt world \<Rightarrow> (error + nat) \<times> 'dt world" where
  "forward_batch rt env w =
     (if fetch_raises env then (Inl PgError, w)
      else
       (case FETCH_QUERY (BATCH_SIZE rt) (radacct w) of
          Inl e \<Rightarrow> (Inl e, w)
        | Inr rows \<Rightarrow>
           (if rows = [] then (Inr 0, w)
            else
             (case transform_rows rt (clock env) 0 rows [] [] of
                Inl e \<Rightarrow> (Inl e, w)
              | Inr (ch_rows, pg_ids) \<Rightarrow>
                 (if insert_raises env then (Inl ChError, w)
                  else
                   (let w1 = w\<lparr>radius_accounting :=
                                 INSERT_CH_QUERY ch_rows (radius_accounting w)\<rparr>
                    in (if mark_raises env then (Inl PgError, w1)
                        else (Inr (length ch_rows),
                              w1\<lparr>radacct := MARK_FORWARDED_QUERY pg_ids (radacct w1)\<rparr>))))))))"

subsection \<open>Acquiring a connection\<close>

text \<open>
  The calls the program makes to its collaborators, in order: connection
  attempts, \<open>time.sleep\<close>, \<open>pg_conn.close()\<close>, the LISTEN statement, and each
  call of \<open>forward_batch\<close> with what it returned or raised. The list is a record
  of what happened; the program does not read it.
\<close>

datatype event =
  ConnectPg | ConnectCh | Sleep nat | ClosePg | Listen | ForwardBatch "error + nat"

type_synonym conn = nat

text \<open>
  \<open>connect_postgres\<close> and \<open>connect_clickhouse\<close>. \<open>running t\<close> is the value of
  the global \<open>running\<close> when it is read for the t-th time, \<open>attempt t\<close> is what
  the body of the \<open>try\<close> does in that iteration: \<open>Some conn\<close> when it reaches
  \<open>return\<close>, \<open>None\<close> when it raises. The result is the connection or the
  RuntimeError, the next reading's index, and the calls made. The loop need not
  end: \<open>None\<close> is a call that never returns.
\<close>

partial_function (option) connect_postgres ::
  "(nat \<Rightarrow> bool) \<Rightarrow> (nat \<Rightarrow> conn option) \<Rightarrow> nat \<Rightarrow> event list
   \<Rightarrow> ((error + conn) \<times> nat \<times> event list) option" where
  "connect_postgres running attempt t evs =
     (if running t then
        (case attempt t of
           Some conn \<Rightarrow> Some (Inr conn, Suc t, evs @ [ConnectPg])
         | None \<Rightarrow> connect_postgres running attempt (Suc t) (evs @ [ConnectPg, Sleep 5]))
      else Some (Inl RuntimeError, Suc t, evs))"

partial_function (option) connect_clickhouse ::
  "(nat \<Rightarrow> bool) \<Rightarrow> (nat \<Rightarrow> conn option) \<Rightarrow> nat \<Rightarrow> event list
   \<Rightarrow> ((error + conn) \<times> nat \<times> event list) option" where
  "connect_clickhouse running attempt t evs =
     (if running t then
        (case attempt t of
           Some client \<Rightarrow> Some (Inr client, Suc t, evs @ [ConnectCh])
         | None \<Rightarrow> connect_clickhouse running attempt (Suc t) (evs @ [ConnectCh, Sleep 5]))
      else Some (Inl RuntimeError, Suc t, evs))"

subsection \<open>The two forwarding paths of the main loop\<close>

text \<open>
  What the outside world does while \<open>main\<close> runs, indexed by the readings of
  \<open>running\<close>: the flag itself, the outcome of a connection attempt to either
  store, whether the LISTEN statement raises, and what happens during a call of
  \<open>forward_batch\<close>. No row is inserted into \<open>radacct\<close> by anyone else while a
  path runs.
\<close>

record 'dt outside =
  running :: "nat \<Rightarrow> bool"
  pg_connect :: "nat \<Rightarrow> conn option"
  ch_connect :: "nat \<Rightarrow> conn option"
  listen_raises :: "nat \<Rightarrow> bool"
  cycle :: "nat \<Rightarrow> 'dt env"

text \<open>
  The variables of \<open>main\<close> and the counters of \<open>metrics\<close>, with the two stores,
  the index \<open>tick\<close> of the next reading and the calls made so far.
\<close>

record 'dt state =
  stores :: "'dt world"
  pg_conn :: conn
  ch_client :: conn
  total_forwarded :: nat
  total_batches :: nat
  total_errors :: nat
  last_forward_time :: "'dt option"
  tick :: nat
  events :: "event list"

text \<open>One call \<open>count = forward_batch(pg_conn, ch_client)\<close> made by \<open>main\<close>.\<close>

definition call_forward_batch ::
  "'dt runtime \<Rightarrow> 'dt outside \<Rightarrow> 'dt state \<Rightarrow> (error + nat) \<times> 'dt state" where
  "call_forward_batch rt out s =
     (case forward_batch rt (cycle out (tick s)) (stores s) of
        (r, w) \<Rightarrow> (r, s\<lparr>stores := w, tick := Suc (tick s),
                         events := events s @ [ForwardBatch r]\<rparr>))"

text \<open>The three assignments to \<open>metrics\<close> after a non-empty cycle.\<close>

definition count_batch :: "'dt outside \<Rightarrow> nat \<Rightarrow> nat \<Rightarrow> 'dt state \<Rightarrow> 'dt state" where
  "count_batch out t count s =
     s\<lparr>total_forwarded := total_forwarded s + count,
       total_batches := total_batches s + 1,
       last_forward_time := Some (clock_after (cycle out t))\<rparr>"

text \<open>The number of rows of \<open>radacct\<close> still to be forwarded.\<close>

definition unforwarded :: "'dt world \<Rightarrow> nat" where
  "unforwarded w = length (filter (\<lambda>s. \<not> forwarded_to_ch s) (radacct w))"

text \<open>
  A non-empty cycle that returns marks at least its first row, which was not
  marked before: the drain loop below makes progress with every such cycle.
\<close>

lemma transform_rows_ids:
  "transform_rows rt clk i rows ch_rows pg_ids = Inr (ch_rows', pg_ids') \<Longrightarrow>
   pg_ids' = pg_ids @ map radacctid rows \<and> length ch_rows' = length ch_rows + length rows"
proof (induction rows arbitrary: i ch_rows pg_ids)
  case Nil
  then show ?case by simp
next
  case (Cons row rows)
  from Cons.prems obtain c where
    c: "transform rt (clk i) row = Inr c" and
    rest: "transform_rows rt clk (Suc i) rows (ch_rows @ [c]) (pg_ids @ [radacctid row])
             = Inr (ch_rows', pg_ids')"
    by (auto split: sum.splits)
  from Cons.IH[OF rest] show ?case by simp
qed

lemma filter_length_le:
  "(\<And>x. x \<in> set xs \<Longrightarrow> P (f x) \<Longrightarrow> Q x) \<Longrightarrow>
   length (filter P (map f xs)) \<le> length (filter Q xs)"
  by (induction xs) auto

lemma filter_length_less:
  assumes "\<And>x. x \<in> set xs \<Longrightarrow> P (f x) \<Longrightarrow> Q x"
    and "x0 \<in> set xs" and "Q x0" and "\<not> P (f x0)"
  shows "length (filter P (map f xs)) < length (filter Q xs)"
  using assms
proof (induction xs)
  case Nil
  then show ?case by simp
next
  case (Cons a xs)
  have le: "length (filter P (map f xs)) \<le> length (filter Q xs)"
    using Cons.prems(1) by (intro filter_length_le) auto
  show ?case
  proof (cases "a = x0")
    case True
    then show ?thesis using Cons.prems le by simp
  next
    case False
    then have "x0 \<in> set xs" using Cons.prems by simp
    then have "length (filter P (map f xs)) < length (filter Q xs)"
      using Cons.IH Cons.prems by simp
    then show ?thesis using Cons.prems(1)[of a] by auto
  qed
qed

lemma FETCH_QUERY_nonempty:
  assumes "FETCH_QUERY limit tbl = Inr (r # rs)"
  shows "\<exists>s \<in> set tbl. \<not> forwarded_to_ch s \<and> radacctid (cols s) = radacctid r"
proof -
  let ?srt = "sort_key (\<lambda>s. radacctid (cols s)) (filter (\<lambda>s. \<not> forwarded_to_ch s) tbl)"
  from assms have eq: "map select_columns (take (nat limit) ?srt) = r # rs"
    by (simp add: FETCH_QUERY_def split: if_splits)
  then obtain s ss where tk: "take (nat limit) ?srt = s # ss" and r: "r = select_columns s"
    by (cases "take (nat limit) ?srt") auto
  have "s \<in> set (take (nat limit) ?srt)" using tk by simp
  then have "s \<in> set ?srt" by (rule in_set_takeD)
  then have "s \<in> set tbl" "\<not> forwarded_to_ch s" by auto
  moreover have "radacctid (cols s) = radacctid r" using r by (simp add: select_columns_def)
  ultimately show ?thesis by blast
qed

lemma forward_batch_decreases:
  assumes "forward_batch rt env w = (Inr count, w')" and "count \<noteq> 0"
  shows "unforwarded w' < unforwarded w"
proof -
  from assms obtain rows ch_rows pg_ids where
    f: "FETCH_QUERY (BATCH_SIZE rt) (radacct w) = Inr rows" and ne: "rows \<noteq> []"
    and t: "transform_rows rt (clock env) 0 rows [] [] = Inr (ch_rows, pg_ids)"
    and w': "radacct w' = MARK_FORWARDED_QUERY pg_ids (radacct w)"
    by (auto simp: forward_batch_def Let_def split: if_splits sum.splits prod.splits)
  from transform_rows_ids[OF t] have ids: "pg_ids = map radacctid rows" by simp
  from ne obtain r rs where rows: "rows = r # rs" by (cases rows) auto
  from FETCH_QUERY_nonempty[OF f[unfolded rows]] obtain s0 where
    s0: "s0 \<in> set (radacct w)" "\<not> forwarded_to_ch s0" "radacctid (cols s0) = radacctid r"
    by blast
  have "radacctid (cols s0) \<in> set pg_ids" using s0 ids rows by simp
  then show ?thesis
    unfolding unforwarded_def w' MARK_FORWARDED_QUERY_def
    by (intro filter_length_less[where ?x0.0 = s0]) (use s0 in \<open>auto split: if_splits\<close>)
qed

text \<open>
  The \<open>while running\<close> loop of the poll path, with its accumulator
  \<open>total_this_poll\<close>. An exception of \<open>forward_batch\<close> leaves the loop.
\<close>

function drain ::
  "'dt runtime \<Rightarrow> 'dt outside \<Rightarrow> 'dt state \<Rightarrow> nat \<Rightarrow> (error + nat) \<times> 'dt state" where
  "drain rt out s total_this_poll =
     (if running out (tick s) then
        (case call_forward_batch rt out s of
           (Inl e, s') \<Rightarrow> (Inl e, s')
         | (Inr count, s') \<Rightarrow>
             (if count = 0 then (Inr total_this_poll, s')
              else drain rt out (count_batch out (tick s) count s') (total_this_poll + count)))
      else (Inr total_this_poll, s\<lparr>tick := Suc (tick s)\<rparr>))"
  by pat_completeness auto
termination
proof (relation "measure (\<lambda>(rt, out, s, total). unforwarded (stores s))", goal_cases)
  case 1
  show ?case by simp
next
  case (2 rt out s total_this_poll x1 x2 count)
  then show ?case
    apply (auto simp: call_forward_batch_def count_batch_def split: prod.splits)
    using forward_batch_decreases by blast
qed

declare drain.simps [simp del]

text \<open>
  The body of \<open>while pg_conn.notifies\<close> for one notification: one forward
  cycle, and on an exception the counter and \<open>connect_clickhouse\<close>, whose own
  exception is passed over.
\<close>

definition on_notify :: "'dt runtime \<Rightarrow> 'dt outside \<Rightarrow> 'dt state \<Rightarrow> 'dt state option" where
  "on_notify rt out s =
     (case call_forward_batch rt out s of
        (Inr count, s') \<Rightarrow>
          Some (if count > 0 then count_batch out (tick s) count s' else s')
      | (Inl e, s') \<Rightarrow>
          (let s1 = s'\<lparr>total_errors := total_errors s' + 1\<rparr> in
           (case connect_clickhouse (running out) (ch_connect out) (tick s1) (events s1) of
              None \<Rightarrow> None
            | Some (Inr client, t, evs) \<Rightarrow>
                Some (s1\<lparr>ch_client := client, tick := t, events := evs\<rparr>)
            | Some (Inl e', t, evs) \<Rightarrow>
                Some (s1\<lparr>tick := t, events := evs\<rparr>))))"

text \<open>
  The reconnection block of the poll path: \<open>connect_postgres\<close>, LISTEN,
  \<open>connect_clickhouse\<close> inside one \<open>try\<close>; any exception ends the block with
  \<open>time.sleep(10)\<close>.
\<close>

definition reconnect :: "'dt outside \<Rightarrow> 'dt state \<Rightarrow> 'dt state option" where
  "reconnect out s =
     (case connect_postgres (running out) (pg_connect out) (tick s) (events s) of
        None \<Rightarrow> None
      | Some (Inl e, t, evs) \<Rightarrow> Some (s\<lparr>tick := t, events := evs @ [Sleep 10]\<rparr>)
      | Some (Inr conn, t, evs) \<Rightarrow>
          (let s1 = s\<lparr>pg_conn := conn, tick := t, events := evs @ [Listen]\<rparr> in
           (if listen_raises out t then Some (s1\<lparr>events := events s1 @ [Sleep 10]\<rparr>)
            else
             (case connect_clickhouse (running out) (ch_connect out) (tick s1) (events s1) of
                None \<Rightarrow> None
              | Some (Inl e, t', evs') \<Rightarrow>
                  Some (s1\<lparr>tick := t', events := evs' @ [Sleep 10]\<rparr>)
              | Some (Inr client, t', evs') \<Rightarrow>
                  Some (s1\<lparr>ch_client := client, tick := t', events := evs'\<rparr>)))))"

text \<open>
  The poll path once the interval has elapsed: the drain loop inside \<open>try\<close>,
  and on an exception the counter, \<open>pg_conn.close()\<close> (whose own exception is
  passed over) and the reconnection block.
\<close>

definition poll_cycle :: "'dt runtime \<Rightarrow> 'dt outside \<Rightarrow> 'dt state \<Rightarrow> 'dt state option" where
  "poll_cycle rt out s =
     (case drain rt out s 0 of
        (Inr total_this_poll, s') \<Rightarrow> Some s'
      | (Inl e, s') \<Rightarrow>
          reconnect out
            (s'\<lparr>total_errors := total_errors s' + 1, events := events s' @ [ClosePg]\<rparr>))"

subsection \<open>A drain in which nothing fails\<close>

text \<open>
  The conditions under which no cycle of a drain raises: the flag \<open>running\<close>
  stays set and no call to a store fails, the batch size is \<open>N\<close> and fits a
  bigint, the keys of
  \<open>radacct\<close> are unique, and every row still to be forwarded transforms without
  an exception.
\<close>

definition drain_ready :: "'dt runtime \<Rightarrow> 'dt outside \<Rightarrow> nat \<Rightarrow> 'dt world \<Rightarrow> bool" where
  "drain_ready rt out N w =
     ((\<forall>t. running out t \<and> \<not> fetch_raises (cycle out t) \<and>
           \<not> insert_raises (cycle out t) \<and> \<not> mark_raises (cycle out t)) \<and>
      BATCH_SIZE rt = int N \<and> int N < 2 ^ 63 \<and>
      distinct (map (\<lambda>s. radacctid (cols s)) (radacct w)) \<and>
      (\<forall>x\<in>set (radacct w). \<not> forwarded_to_ch x \<longrightarrow>
         (\<forall>now. \<exists>c. transform rt now (select_columns x) = Inr c)))"

section \<open>Example data\<close>

text \<open>The fetched row with key \<open>i\<close> and every other column NULL.\<close>

definition absent_row :: "int \<Rightarrow> 'dt row" where
  "absent_row i =
     \<lparr> radacctid = i, acctsessionid = PNone, acctuniqueid = PNone, username = PNone,
       realm = PNone, nasipaddress = PNone, nasportid = PNone, nasporttype = PNone,
       acctstarttime = PNone, acctupdatetime = PNone, acctstoptime = PNone,
       acctinterval = PNone, acctsessiontime = PNone, acctauthentic = PNone,
       connectinfo_start = PNone, connectinfo_stop = PNone, acctinputoctets = PNone,
       acctoutputoctets = PNone, calledstationid = PNone, callingstationid = PNone,
       acctterminatecause = PNone, servicetype = PNone, framedprotocol = PNone,
       framedipaddress = PNone \<rparr>"

text \<open>A runtime with batch size 2, in which a datetime is a number of seconds.\<close>

definition rt0 :: "nat runtime" where
  "rt0 = \<lparr> BATCH_SIZE = 2, EDGE_SITE_ID = ''edge-1'', str_of_datetime = digits,
           int_of_str = (\<lambda>s. None) \<rparr>"

text \<open>A session that carries an update and a stop timestamp in the same row.\<close>

definition stop_and_update_row :: "nat row" where
  "stop_and_update_row =
     (absent_row 3)\<lparr> acctstarttime := PDatetime 100, acctupdatetime := PDatetime 160,
                     acctstoptime := PDatetime 220 \<rparr>"

text \<open>A row whose stop timestamp arrived as text.\<close>

definition malformed_stop_row :: "nat row" where
  "malformed_stop_row =
     (absent_row 4)\<lparr> acctstarttime := PDatetime 100, acctstoptime := PStr ''2024-01-01'' \<rparr>"

text \<open>A row with a user name and an input counter and nothing else.\<close>

definition partly_absent_row :: "nat row" where
  "partly_absent_row =
     (absent_row 5)\<lparr> username := PStr ''alice'', acctinputoctets := PInt 12 \<rparr>"

text \<open>A stored row with key \<open>i\<close>, a start timestamp and nothing else.\<close>

definition stored_row :: "int \<Rightarrow> bool \<Rightarrow> nat stored" where
  "stored_row i fw =
     \<lparr> cols = (absent_row i)\<lparr>acctstarttime := PDatetime 100\<rparr>, forwarded_to_ch = fw \<rparr>"

text \<open>
  A table of four rows in no particular storage order, the row with key 0
  already forwarded, and an empty sink.
\<close>

definition w0 :: "nat world" where
  "w0 = \<lparr> radacct = [stored_row 2 False, stored_row 0 True, stored_row 3 False,
                      stored_row 1 False],
          radius_accounting = [] \<rparr>"

text \<open>A cycle during which no call fails.\<close>

definition env_ok :: "nat env" where
  "env_ok = \<lparr> fetch_raises = False, insert_raises = False, mark_raises = False,
              clock = (\<lambda>i. 500 + i), clock_after = 600 \<rparr>"

text \<open>The sink row that the transform makes of \<open>stored_row i\<close> under \<open>rt0\<close>.\<close>

definition sent_row :: "int \<Rightarrow> nat ch_row" where
  "sent_row i =
     \<lparr> ch_radacctid = i, ch_acctsessionid = '''', ch_acctuniqueid = '''',
       ch_username = '''', ch_realm = '''', ch_nasipaddress = '''', ch_nasportid = '''',
       ch_nasporttype = '''', ch_acctstarttime = PDatetime 100,
       ch_acctupdatetime = None, ch_acctstoptime = None, ch_acctinterval = 0,
       ch_acctsessiontime = 0, ch_acctauthentic = '''', ch_connectinfo_start = '''',
       ch_connectinfo_stop = '''', ch_acctinputoctets = 0, ch_acctoutputoctets = 0,
       ch_calledstationid = '''', ch_callingstationid = '''',
       ch_acctterminatecause = '''', ch_servicetype = '''', ch_framedprotocol = '''',
       ch_framedipaddress = '''', ch_event_type = ''start'',
       ch_edge_site_id = ''edge-1'' \<rparr>"

text \<open>An outside world in which nothing fails and nobody asks for shutdown.\<close>

definition out0 :: "nat outside" where
  "out0 = \<lparr> running = (\<lambda>t. True), pg_connect = (\<lambda>t. Some 1), ch_connect = (\<lambda>t. Some 2),
            listen_raises = (\<lambda>t. False), cycle = (\<lambda>t. env_ok) \<rparr>"

text \<open>The state of \<open>main\<close> before its first cycle, over the example table.\<close>

definition s0 :: "nat state" where
  "s0 = \<lparr> stores = w0, pg_conn = 0, ch_client = 0, total_forwarded = 0, total_batches = 0,
          total_errors = 0, last_forward_time = None, tick = 0, events = [] \<rparr>"

text \<open>An outside world in which every fetch raises: the source has failed.\<close>

definition out_source_down :: "nat outside" where
  "out_source_down = out0\<lparr> cycle := (\<lambda>t. env_ok\<lparr>fetch_raises := True\<rparr>) \<rparr>"

text \<open>An outside world in which every insert raises: the sink has failed.\<close>

definition out_sink_down :: "nat outside" where
  "out_sink_down = out0\<lparr> cycle := (\<lambda>t. env_ok\<lparr>insert_raises := True\<rparr>) \<rparr>"

section \<open>Properties of the transform\<close>

text \<open>What a successful transform returns, and when it succeeds.\<close>

lemma transform_Inr:
  assumes "transform rt now row = Inr c"
  shows "\<exists>a b i j. safe_int rt (acctinterval row) = Inr a \<and>
     safe_int rt (acctsessiontime row) = Inr b \<and>
     safe_int rt (acctinputoctets row) = Inr i \<and>
     safe_int rt (acctoutputoctets row) = Inr j \<and>
     c = \<lparr> ch_radacctid = radacctid row,
            ch_acctsessionid = safe_str rt (acctsessionid row),
            ch_acctuniqueid = safe_str rt (acctuniqueid row),
            ch_username = safe_str rt (username row),
            ch_realm = safe_str rt (realm row),
            ch_nasipaddress = safe_str rt (nasipaddress row),
            ch_nasportid = safe_str rt (nasportid row),
            ch_nasporttype = safe_str rt (nasporttype row),
            ch_acctstarttime =
              (if py_truthy (acctstarttime row) then acctstarttime row else PDatetime now),
            ch_acctupdatetime = safe_datetime (acctupdatetime row),
            ch_acctstoptime = safe_datetime (acctstoptime row),
            ch_acctinterval = a,
            ch_acctsessiontime = b,
            ch_acctauthentic = safe_str rt (acctauthentic row),
            ch_connectinfo_start = safe_str rt (connectinfo_start row),
            ch_connectinfo_stop = safe_str rt (connectinfo_stop row),
            ch_acctinputoctets = i,
            ch_acctoutputoctets = j,
            ch_calledstationid = safe_str rt (calledstationid row),
            ch_callingstationid = safe_str rt (callingstationid row),
            ch_acctterminatecause = safe_str rt (acctterminatecause row),
            ch_servicetype = safe_str rt (servicetype row),
            ch_framedprotocol = safe_str rt (framedprotocol row),
            ch_framedipaddress = safe_str rt (framedipaddress row),
            ch_event_type = determine_event_type row,
            ch_edge_site_id = EDGE_SITE_ID rt \<rparr>"
  using assms unfolding transform_def Let_def
  by (auto split: sum.splits)

lemma transform_succeeds_iff:
  "(\<exists>c. transform rt now row = Inr c) \<longleftrightarrow>
   (\<exists>a. safe_int rt (acctinterval row) = Inr a) \<and>
   (\<exists>b. safe_int rt (acctsessiontime row) = Inr b) \<and>
   (\<exists>i. safe_int rt (acctinputoctets row) = Inr i) \<and>
   (\<exists>j. safe_int rt (acctoutputoctets row) = Inr j)"
  unfolding transform_def Let_def by (auto split: sum.splits)

text \<open>
  C2. The event type is \<open>stop\<close> when the stop timestamp is present, whatever the
  update timestamp is; otherwise \<open>interim\<close> when the update timestamp is
  present; otherwise \<open>start\<close>. The row written to the sink carries that value.
\<close>

theorem event_type_precedence:
  "(acctstoptime row \<noteq> PNone \<longrightarrow> determine_event_type row = ''stop'') \<and>
   (acctstoptime row = PNone \<and> acctupdatetime row \<noteq> PNone \<longrightarrow>
      determine_event_type row = ''interim'') \<and>
   (acctstoptime row = PNone \<and> acctupdatetime row = PNone \<longrightarrow>
      determine_event_type row = ''start'') \<and>
   (\<forall>c. transform rt now row = Inr c \<longrightarrow> ch_event_type c = determine_event_type row)"
proof -
  have "ch_event_type c = determine_event_type row" if "transform rt now row = Inr c" for c
    using transform_Inr[OF that] by auto
  then show ?thesis by (simp add: determine_event_type_def)
qed

theorem event_type_precedence_witness:
  "acctstoptime stop_and_update_row \<noteq> PNone \<and> acctupdatetime stop_and_update_row \<noteq> PNone \<and>
   determine_event_type stop_and_update_row = ''stop''"
  using event_type_precedence[of stop_and_update_row rt0 0]
  by (simp add: stop_and_update_row_def absent_row_def)

text \<open>
  C3. In the row a transform returns, a text column that was NULL is the empty
  string, a numeric column that was NULL is zero, an update or stop timestamp
  that was NULL is \<open>None\<close> (and not the clock's reading), and a start timestamp
  that was NULL is the clock's reading at the transform. The row with every
  optional column NULL transforms, without an exception, to exactly these
  defaults with the event type \<open>start\<close>.
\<close>

theorem transform_absent_defaults:
  "(\<forall>c. transform rt now row = Inr c \<longrightarrow>
      (acctsessionid row = PNone \<longrightarrow> ch_acctsessionid c = '''') \<and>
      (acctuniqueid row = PNone \<longrightarrow> ch_acctuniqueid c = '''') \<and>
      (username row = PNone \<longrightarrow> ch_username c = '''') \<and>
      (realm row = PNone \<longrightarrow> ch_realm c = '''') \<and>
      (nasipaddress row = PNone \<longrightarrow> ch_nasipaddress c = '''') \<and>
      (nasportid row = PNone \<longrightarrow> ch_nasportid c = '''') \<and>
      (nasporttype row = PNone \<longrightarrow> ch_nasporttype c = '''') \<and>
      (acctauthentic row = PNone \<longrightarrow> ch_acctauthentic c = '''') \<and>
      (connectinfo_start row = PNone \<longrightarrow> ch_connectinfo_start c = '''') \<and>
      (connectinfo_stop row = PNone \<longrightarrow> ch_connectinfo_stop c = '''') \<and>
      (calledstationid row = PNone \<longrightarrow> ch_calledstationid c = '''') \<and>
      (callingstationid row = PNone \<longrightarrow> ch_callingstationid c = '''') \<and>
      (acctterminatecause row = PNone \<longrightarrow> ch_acctterminatecause c = '''') \<and>
      (servicetype row = PNone \<longrightarrow> ch_servicetype c = '''') \<and>
      (framedprotocol row = PNone \<longrightarrow> ch_framedprotocol c = '''') \<and>
      (framedipaddress row = PNone \<longrightarrow> ch_framedipaddress c = '''') \<and>
      (acctinterval row = PNone \<longrightarrow> ch_acctinterval c = 0) \<and>
      (acctsessiontime row = PNone \<longrightarrow> ch_acctsessiontime c = 0) \<and>
      (acctinputoctets row = PNone \<longrightarrow> ch_acctinputoctets c = 0) \<and>
      (acctoutputoctets row = PNone \<longrightarrow> ch_acctoutputoctets c = 0) \<and>
      (acctupdatetime row = PNone \<longrightarrow> ch_acctupdatetime c = None) \<and>
      (acctstoptime row = PNone \<longrightarrow> ch_acctstoptime c = None) \<and>
      (acctstarttime row = PNone \<longrightarrow> ch_acctstarttime c = PDatetime now)) \<and>
   transform rt now (absent_row i) =
     Inr \<lparr> ch_radacctid = i, ch_acctsessionid = '''', ch_acctuniqueid = '''',
           ch_username = '''', ch_realm = '''', ch_nasipaddress = '''', ch_nasportid = '''',
           ch_nasporttype = '''', ch_acctstarttime = PDatetime now,
           ch_acctupdatetime = None, ch_acctstoptime = None, ch_acctinterval = 0,
           ch_acctsessiontime = 0, ch_acctauthentic = '''', ch_connectinfo_start = '''',
           ch_connectinfo_stop = '''', ch_acctinputoctets = 0, ch_acctoutputoctets = 0,
           ch_calledstationid = '''', ch_callingstationid = '''',
           ch_acctterminatecause = '''', ch_servicetype = '''', ch_framedprotocol = '''',
           ch_framedipaddress = '''', ch_event_type = ''start'',
           ch_edge_site_id = EDGE_SITE_ID rt \<rparr>"
proof (intro conjI allI impI)
  show "transform rt now (absent_row i) =
     Inr \<lparr> ch_radacctid = i, ch_acctsessionid = '''', ch_acctuniqueid = '''',
           ch_username = '''', ch_realm = '''', ch_nasipaddress = '''', ch_nasportid = '''',
           ch_nasporttype = '''', ch_acctstarttime = PDatetime now,
           ch_acctupdatetime = None, ch_acctstoptime = None, ch_acctinterval = 0,
           ch_acctsessiontime = 0, ch_acctauthentic = '''', ch_connectinfo_start = '''',
           ch_connectinfo_stop = '''', ch_acctinputoctets = 0, ch_acctoutputoctets = 0,
           ch_calledstationid = '''', ch_callingstationid = '''',
           ch_acctterminatecause = '''', ch_servicetype = '''', ch_framedprotocol = '''',
           ch_framedipaddress = '''', ch_event_type = ''start'',
           ch_edge_site_id = EDGE_SITE_ID rt \<rparr>"
    by (simp add: transform_def absent_row_def safe_int_def safe_str_def safe_datetime_def
        determine_event_type_def)
next
  fix c assume t: "transform rt now row = Inr c"
  note shape = transform_Inr[OF t]
  { assume "acctsessionid row = PNone" then show "ch_acctsessionid c = ''''"
      using shape by (auto simp: safe_str_def) }
  { assume "acctuniqueid row = PNone" then show "ch_acctuniqueid c = ''''"
      using shape by (auto simp: safe_str_def) }
  { assume "username row = PNone" then show "ch_username c = ''''"
      using shape by (auto simp: safe_str_def) }
  { assume "realm row = PNone" then show "ch_realm c = ''''"
      using shape by (auto simp: safe_str_def) }
  { assume "nasipaddress row = PNone" then show "ch_nasipaddress c = ''''"
      using shape by (auto simp: safe_str_def) }
  { assume "nasportid row = PNone" then show "ch_nasportid c = ''''"
      using shape by (auto simp: safe_str_def) }
  { assume "nasporttype row = PNone" then show "ch_nasporttype c = ''''"
      using shape by (auto simp: safe_str_def) }
  { assume "acctauthentic row = PNone" then show "ch_acctauthentic c = ''''"
      using shape by (auto simp: safe_str_def) }
  { assume "connectinfo_start row = PNone" then show "ch_connectinfo_start c = ''''"
      using shape by (auto simp: safe_str_def) }
  { assume "connectinfo_stop row = PNone" then show "ch_connectinfo_stop c = ''''"
      using shape by (auto simp: safe_str_def) }
  { assume "calledstationid row = PNone" then show "ch_calledstationid c = ''''"
      using shape by (auto simp: safe_str_def) }
  { assume "callingstationid row = PNone" then show "ch_callingstationid c = ''''"
      using shape by (auto simp: safe_str_def) }
  { assume "acctterminatecause row = PNone" then show "ch_acctterminatecause c = ''''"
      using shape by (auto simp: safe_str_def) }
  { assume "servicetype row = PNone" then show "ch_servicetype c = ''''"
      using shape by (auto simp: safe_str_def) }
  { assume "framedprotocol row = PNone" then show "ch_framedprotocol c = ''''"
      using shape by (auto simp: safe_str_def) }
  { assume "framedipaddress row = PNone" then show "ch_framedipaddress c = ''''"
      using shape by (auto simp: safe_str_def) }
  { assume "acctinterval row = PNone" then show "ch_acctinterval c = 0"
      using shape by (auto simp: safe_int_def) }
  { assume "acctsessiontime row = PNone" then show "ch_acctsessiontime c = 0"
      using shape by (auto simp: safe_int_def) }
  { assume "acctinputoctets row = PNone" then show "ch_acctinputoctets c = 0"
      using shape by (auto simp: safe_int_def) }
  { assume "acctoutputoctets row = PNone" then show "ch_acctoutputoctets c = 0"
      using shape by (auto simp: safe_int_def) }
  { assume "acctupdatetime row = PNone" then show "ch_acctupdatetime c = None"
      using shape by (auto simp: safe_datetime_def) }
  { assume "acctstoptime row = PNone" then show "ch_acctstoptime c = None"
      using shape by (auto simp: safe_datetime_def) }
  { assume "acctstarttime row = PNone" then show "ch_acctstarttime c = PDatetime now"
      using shape by auto }
qed

theorem transform_absent_defaults_witness:
  "\<exists>c. transform rt0 7 partly_absent_row = Inr c \<and>
     realm partly_absent_row = PNone \<and> ch_realm c = '''' \<and>
     acctoutputoctets partly_absent_row = PNone \<and> ch_acctoutputoctets c = 0 \<and>
     acctupdatetime partly_absent_row = PNone \<and> ch_acctupdatetime c = None \<and>
     acctstoptime partly_absent_row = PNone \<and> ch_acctstoptime c = None \<and>
     acctstarttime partly_absent_row = PNone \<and> ch_acctstarttime c = PDatetime 7"
proof -
  obtain c where c: "transform rt0 7 partly_absent_row = Inr c"
    using transform_succeeds_iff[of rt0 7 partly_absent_row]
    by (auto simp: partly_absent_row_def absent_row_def safe_int_def)
  have p: "realm partly_absent_row = PNone" "acctoutputoctets partly_absent_row = PNone"
    "acctupdatetime partly_absent_row = PNone" "acctstoptime partly_absent_row = PNone"
    "acctstarttime partly_absent_row = PNone"
    by (simp_all add: partly_absent_row_def absent_row_def)
  from transform_absent_defaults[of rt0 7 partly_absent_row 0] c p
  show ?thesis by auto
qed

text \<open>
  C10. \<open>safe_datetime\<close> returns \<open>None\<close> for every value that is not a datetime,
  not only for \<open>None\<close>. A stop (or update) timestamp that is present but not a
  datetime is therefore forwarded as \<open>None\<close> while the event type of the same
  row says \<open>stop\<close> (or \<open>interim\<close>); and whether the transform raises does not
  depend on the two timestamp columns at all.
\<close>

theorem safe_datetime_non_datetime:
  "(\<not> is_datetime v \<longrightarrow> safe_datetime v = None) \<and>
   (\<forall>c. transform rt now row = Inr c \<and> acctstoptime row \<noteq> PNone \<and>
        \<not> is_datetime (acctstoptime row) \<longrightarrow>
        ch_event_type c = ''stop'' \<and> ch_acctstoptime c = None) \<and>
   (\<forall>c. transform rt now row = Inr c \<and> acctstoptime row = PNone \<and>
        acctupdatetime row \<noteq> PNone \<and> \<not> is_datetime (acctupdatetime row) \<longrightarrow>
        ch_event_type c = ''interim'' \<and> ch_acctupdatetime c = None) \<and>
   ((\<exists>c. transform rt now (row\<lparr>acctupdatetime := u, acctstoptime := v\<rparr>) = Inr c)
      = (\<exists>c. transform rt now row = Inr c))"
proof -
  have a: "\<not> is_datetime v \<longrightarrow> safe_datetime v = None"
    by (cases v) (simp_all add: safe_datetime_def)
  have b: "ch_event_type c = ''stop'' \<and> ch_acctstoptime c = None"
    if "transform rt now row = Inr c" "acctstoptime row \<noteq> PNone"
       "\<not> is_datetime (acctstoptime row)" for c
  proof -
    from transform_Inr[OF that(1)] have
      "ch_event_type c = determine_event_type row"
      "ch_acctstoptime c = safe_datetime (acctstoptime row)" by auto
    moreover have "safe_datetime (acctstoptime row) = None"
      using that(3) by (cases "acctstoptime row") (simp_all add: safe_datetime_def)
    ultimately show ?thesis using that(2) by (simp add: determine_event_type_def)
  qed
  have c: "ch_event_type c = ''interim'' \<and> ch_acctupdatetime c = None"
    if "transform rt now row = Inr c" "acctstoptime row = PNone"
       "acctupdatetime row \<noteq> PNone" "\<not> is_datetime (acctupdatetime row)" for c
  proof -
    from transform_Inr[OF that(1)] have
      "ch_event_type c = determine_event_type row"
      "ch_acctupdatetime c = safe_datetime (acctupdatetime row)" by auto
    moreover have "safe_datetime (acctupdatetime row) = None"
      using that(4) by (cases "acctupdatetime row") (simp_all add: safe_datetime_def)
    ultimately show ?thesis using that(2,3) by (simp add: determine_event_type_def)
  qed
  have d: "(\<exists>c. transform rt now (row\<lparr>acctupdatetime := u, acctstoptime := v\<rparr>) = Inr c)
      = (\<exists>c. transform rt now row = Inr c)"
    by (simp add: transform_succeeds_iff)
  from a b c d show ?thesis by blast
qed

theorem safe_datetime_non_datetime_witness:
  "\<not> is_datetime (PStr ''2024-01-01'' :: nat pyval) \<and>
   safe_datetime (PStr ''2024-01-01'' :: nat pyval) = None \<and>
   (\<exists>c. transform rt0 0 malformed_stop_row = Inr c \<and>
        acctstoptime malformed_stop_row \<noteq> PNone \<and>
        \<not> is_datetime (acctstoptime malformed_stop_row) \<and>
        ch_event_type c = ''stop'' \<and> ch_acctstoptime c = None)"
proof -
  obtain c where c: "transform rt0 0 malformed_stop_row = Inr c"
    using transform_succeeds_iff[of rt0 0 malformed_stop_row]
    by (auto simp: malformed_stop_row_def absent_row_def safe_int_def)
  have p: "acctstoptime malformed_stop_row \<noteq> PNone"
    "\<not> is_datetime (acctstoptime malformed_stop_row)"
    by (simp_all add: malformed_stop_row_def absent_row_def)
  from safe_datetime_non_datetime[of "PStr ''2024-01-01''" rt0 0 malformed_stop_row] c p
  show ?thesis by auto
qed

section \<open>Properties of the fetch and of one forward cycle\<close>

text \<open>What the loop over the fetched rows returns.\<close>

lemma transform_rows_result:
  "transform_rows rt clk i rows ch_rows pg_ids = Inr (ch_rows', pg_ids') \<Longrightarrow>
   \<exists>cs. ch_rows' = ch_rows @ cs \<and> length cs = length rows \<and>
        pg_ids' = pg_ids @ map radacctid rows \<and>
        map ch_radacctid cs = map radacctid rows \<and>
        (\<forall>k<length rows. transform rt (clk (i + k)) (rows ! k) = Inr (cs ! k))"
proof (induction rows arbitrary: i ch_rows pg_ids)
  case Nil
  then show ?case by simp
next
  case (Cons row rows)
  from Cons.prems obtain c where
    c: "transform rt (clk i) row = Inr c" and
    rest: "transform_rows rt clk (Suc i) rows (ch_rows @ [c]) (pg_ids @ [radacctid row])
             = Inr (ch_rows', pg_ids')"
    by (auto split: sum.splits)
  from Cons.IH[OF rest] obtain cs where cs:
    "ch_rows' = (ch_rows @ [c]) @ cs" "length cs = length rows"
    "pg_ids' = (pg_ids @ [radacctid row]) @ map radacctid rows"
    "map ch_radacctid cs = map radacctid rows"
    "\<forall>k<length rows. transform rt (clk (Suc i + k)) (rows ! k) = Inr (cs ! k)"
    by blast
  have id: "ch_radacctid c = radacctid row"
    using transform_Inr[OF c] by auto
  have "\<forall>k<length (row # rows). transform rt (clk (i + k)) ((row # rows) ! k) = Inr ((c # cs) ! k)"
  proof (intro allI impI)
    fix k assume "k < length (row # rows)"
    then show "transform rt (clk (i + k)) ((row # rows) ! k) = Inr ((c # cs) ! k)"
      using c cs(5) by (cases k) auto
  qed
  with cs id show ?case
    by (intro exI[of _ "c # cs"]) simp
qed

text \<open>The outcomes of a cycle: how it can return, and how it can raise.\<close>

lemma forward_batch_Inr:
  assumes "forward_batch rt env w = (Inr n, w')"
  shows "(n = 0 \<and> w' = w \<and> \<not> fetch_raises env \<and>
          FETCH_QUERY (BATCH_SIZE rt) (radacct w) = Inr []) \<or>
         (\<exists>rows ch_rows pg_ids.
            \<not> fetch_raises env \<and> FETCH_QUERY (BATCH_SIZE rt) (radacct w) = Inr rows \<and>
            rows \<noteq> [] \<and>
            transform_rows rt (clock env) 0 rows [] [] = Inr (ch_rows, pg_ids) \<and>
            \<not> insert_raises env \<and> \<not> mark_raises env \<and> n = length ch_rows \<and>
            w' = w\<lparr>radius_accounting := radius_accounting w @ ch_rows,
                   radacct := MARK_FORWARDED_QUERY pg_ids (radacct w)\<rparr>)"
  using assms
  by (auto simp: forward_batch_def Let_def INSERT_CH_QUERY_def
      split: if_splits sum.splits prod.splits)

lemma forward_batch_Inl:
  assumes "forward_batch rt env w = (Inl e, w')"
  shows "w' = w \<or>
         (\<exists>rows ch_rows pg_ids.
            \<not> fetch_raises env \<and> FETCH_QUERY (BATCH_SIZE rt) (radacct w) = Inr rows \<and>
            rows \<noteq> [] \<and>
            transform_rows rt (clock env) 0 rows [] [] = Inr (ch_rows, pg_ids) \<and>
            \<not> insert_raises env \<and> mark_raises env \<and> e = PgError \<and>
            w' = w\<lparr>radius_accounting := radius_accounting w @ ch_rows\<rparr>)"
  using assms
  by (auto simp: forward_batch_def Let_def INSERT_CH_QUERY_def
      split: if_splits sum.splits prod.splits)

lemma radacctid_select_columns [simp]: "radacctid (select_columns s) = radacctid (cols s)"
  by (simp add: select_columns_def)

text \<open>Facts about the three statements.\<close>

lemma FETCH_QUERY_Inr:
  assumes "FETCH_QUERY limit tbl = Inr rows"
  shows "0 \<le> limit" and
    "rows = map select_columns (take (nat limit)
       (sort_key (\<lambda>s. radacctid (cols s)) (filter (\<lambda>s. \<not> forwarded_to_ch s) tbl)))"
    and "limit < 2 ^ 63"
  using assms by (auto simp: FETCH_QUERY_def split: if_splits)

lemma FETCH_QUERY_keys:
  assumes "FETCH_QUERY limit tbl = Inr rows"
  shows "map radacctid rows = take (nat limit)
       (map (\<lambda>s. radacctid (cols s))
         (sort_key (\<lambda>s. radacctid (cols s)) (filter (\<lambda>s. \<not> forwarded_to_ch s) tbl)))"
  unfolding FETCH_QUERY_Inr(2)[OF assms] by (simp add: take_map o_def)

lemma FETCH_QUERY_sorted:
  assumes "FETCH_QUERY limit tbl = Inr rows"
  shows "sorted (map radacctid rows)"
  unfolding FETCH_QUERY_keys[OF assms]
  by (intro sorted_wrt_take) (rule sorted_sort_key)

lemma distinct_keys_sort_filter:
  assumes "distinct (map f xs)"
  shows "distinct (map f (sort_key f (filter P xs)))"
proof -
  from assms have "distinct xs" "inj_on f (set xs)" by (auto simp: distinct_map)
  then have "distinct (sort_key f (filter P xs))" "inj_on f (set (sort_key f (filter P xs)))"
    by (auto intro: inj_on_subset)
  then show ?thesis by (simp add: distinct_map)
qed

lemma FETCH_QUERY_distinct:
  assumes "FETCH_QUERY limit tbl = Inr rows"
    and "distinct (map (\<lambda>s. radacctid (cols s)) tbl)"
  shows "distinct (map radacctid rows)"
  unfolding FETCH_QUERY_keys[OF assms(1)]
  by (intro distinct_take distinct_keys_sort_filter assms(2))

lemma FETCH_QUERY_from:
  assumes "FETCH_QUERY limit tbl = Inr rows" and "r \<in> set rows"
  shows "\<exists>s\<in>set tbl. \<not> forwarded_to_ch s \<and> r = select_columns s"
proof -
  from assms obtain s where
    "s \<in> set (take (nat limit)
       (sort_key (\<lambda>s. radacctid (cols s)) (filter (\<lambda>s. \<not> forwarded_to_ch s) tbl)))"
    and r: "r = select_columns s"
    unfolding FETCH_QUERY_Inr(2)[OF assms(1)] by auto
  then have "s \<in> set (sort_key (\<lambda>s. radacctid (cols s)) (filter (\<lambda>s. \<not> forwarded_to_ch s) tbl))"
    by (auto dest: in_set_takeD)
  then show ?thesis using r by auto
qed

lemma FETCH_QUERY_length:
  assumes "FETCH_QUERY limit tbl = Inr rows"
  shows "int (length rows) \<le> limit"
  using FETCH_QUERY_Inr(1)[OF assms] unfolding FETCH_QUERY_Inr(2)[OF assms] by simp

lemma MARK_FORWARDED_QUERY_flag:
  assumes "s' \<in> set (MARK_FORWARDED_QUERY ids tbl)" and "\<not> forwarded_to_ch s'"
  shows "radacctid (cols s') \<notin> set ids"
  using assms by (auto simp: MARK_FORWARDED_QUERY_def split: if_splits)

lemma FETCH_after_MARK_disjoint:
  assumes "FETCH_QUERY limit (MARK_FORWARDED_QUERY ids tbl) = Inr rows'"
  shows "set (map radacctid rows') \<inter> set ids = {}"
proof -
  have "radacctid r \<notin> set ids" if "r \<in> set rows'" for r
  proof -
    from FETCH_QUERY_from[OF assms that] obtain s' where
      "s' \<in> set (MARK_FORWARDED_QUERY ids tbl)" "\<not> forwarded_to_ch s'" "r = select_columns s'"
      by blast
    then show ?thesis using MARK_FORWARDED_QUERY_flag by fastforce
  qed
  then show ?thesis by auto
qed

lemma sort_key_same_set:
  assumes "set xs = set ys" and "distinct (map f xs)" and "distinct (map f ys)"
  shows "sort_key f xs = sort_key f ys"
proof -
  have inj: "inj_on f (set xs)" using assms(2) by (simp add: distinct_map)
  have "map f (sort_key f xs) = map f (sort_key f ys)"
  proof (rule sorted_distinct_set_unique)
    show "sorted (map f (sort_key f xs))" "sorted (map f (sort_key f ys))"
      by (rule sorted_sort_key)+
    show "distinct (map f (sort_key f xs))"
      using distinct_keys_sort_filter[OF assms(2), of "\<lambda>x. True"] by simp
    show "distinct (map f (sort_key f ys))"
      using distinct_keys_sort_filter[OF assms(3), of "\<lambda>x. True"] by simp
    show "set (map f (sort_key f xs)) = set (map f (sort_key f ys))"
      using assms(1) by simp
  qed
  moreover have "inj_on f (set (sort_key f xs) \<union> set (sort_key f ys))"
    using inj assms(1) by simp
  ultimately show ?thesis by (simp add: inj_on_map_eq_map)
qed

lemma FETCH_QUERY_storage_order:
  assumes "set tbl' = set tbl"
    and "distinct (map (\<lambda>s. radacctid (cols s)) tbl)"
    and "distinct (map (\<lambda>s. radacctid (cols s)) tbl')"
  shows "FETCH_QUERY limit tbl' = FETCH_QUERY limit tbl"
proof -
  have "sort_key (\<lambda>s. radacctid (cols s)) (filter (\<lambda>s. \<not> forwarded_to_ch s) tbl')
      = sort_key (\<lambda>s. radacctid (cols s)) (filter (\<lambda>s. \<not> forwarded_to_ch s) tbl)"
    using assms by (intro sort_key_same_set) (auto simp: distinct_map_filter)
  then show ?thesis by (simp add: FETCH_QUERY_def)
qed

text \<open>
  C4. A fetch that returns yields only rows whose flag is false, in ascending
  order of \<open>radacctid\<close> (strictly ascending when the keys of the table are
  unique, as those of a primary key are), and at most \<open>limit\<close> of them; a cycle
  returns at most \<open>BATCH_SIZE\<close>. After any list of keys has been marked, a
  fetch returns none of them. The result is a function of the table alone, and
  with unique keys of the set of its rows, not of their storage order.
\<close>

theorem fetch_contract:
  "(\<forall>rows. FETCH_QUERY limit tbl = Inr rows \<longrightarrow>
      (\<forall>r\<in>set rows. \<exists>s\<in>set tbl. \<not> forwarded_to_ch s \<and> r = select_columns s) \<and>
      sorted (map radacctid rows) \<and>
      (distinct (map (\<lambda>s. radacctid (cols s)) tbl) \<longrightarrow> sorted_wrt (<) (map radacctid rows)) \<and>
      int (length rows) \<le> limit) \<and>
   (\<forall>ids rows'. FETCH_QUERY limit (MARK_FORWARDED_QUERY ids tbl) = Inr rows' \<longrightarrow>
      set (map radacctid rows') \<inter> set ids = {}) \<and>
   (\<forall>tbl'. set tbl' = set tbl \<and> distinct (map (\<lambda>s. radacctid (cols s)) tbl) \<and>
      distinct (map (\<lambda>s. radacctid (cols s)) tbl') \<longrightarrow>
      FETCH_QUERY limit tbl' = FETCH_QUERY limit tbl) \<and>
   (\<forall>rt env w n w'. forward_batch rt env w = (Inr n, w') \<longrightarrow> int n \<le> BATCH_SIZE rt)"
proof (intro conjI allI impI ballI)
  fix rows assume f: "FETCH_QUERY limit tbl = Inr rows"
  show "sorted (map radacctid rows)" by (rule FETCH_QUERY_sorted[OF f])
  show "int (length rows) \<le> limit" by (rule FETCH_QUERY_length[OF f])
  { assume "distinct (map (\<lambda>s. radacctid (cols s)) tbl)"
    then show "sorted_wrt (<) (map radacctid rows)"
      using FETCH_QUERY_sorted[OF f] FETCH_QUERY_distinct[OF f]
      by (simp add: strict_sorted_iff) }
  { fix r assume "r \<in> set rows"
    then show "\<exists>s\<in>set tbl. \<not> forwarded_to_ch s \<and> r = select_columns s"
      by (rule FETCH_QUERY_from[OF f]) }
next
  fix ids rows' assume "FETCH_QUERY limit (MARK_FORWARDED_QUERY ids tbl) = Inr rows'"
  then show "set (map radacctid rows') \<inter> set ids = {}" by (rule FETCH_after_MARK_disjoint)
next
  fix tbl' :: "'a stored list"
  assume "set tbl' = set tbl \<and> distinct (map (\<lambda>s. radacctid (cols s)) tbl) \<and>
      distinct (map (\<lambda>s. radacctid (cols s)) tbl')"
  then show "FETCH_QUERY limit tbl' = FETCH_QUERY limit tbl"
    by (intro FETCH_QUERY_storage_order) auto
next
  fix rt :: "'b runtime" and env w n w'
  assume fb: "forward_batch rt env w = (Inr n, w')"
  from forward_batch_Inr[OF fb] show "int n \<le> BATCH_SIZE rt"
  proof (elim disjE exE conjE)
    assume "n = 0" "FETCH_QUERY (BATCH_SIZE rt) (radacct w) = Inr []"
    then show ?thesis using FETCH_QUERY_Inr(1) by fastforce
  next
    fix rows ch_rows pg_ids
    assume f: "FETCH_QUERY (BATCH_SIZE rt) (radacct w) = Inr rows"
      and t: "transform_rows rt (clock env) 0 rows [] [] = Inr (ch_rows, pg_ids)"
      and n: "n = length ch_rows"
    from transform_rows_result[OF t] have "length ch_rows = length rows" by auto
    then show ?thesis using FETCH_QUERY_length[OF f] n by simp
  qed
qed

text \<open>The cycle on the example data.\<close>

lemma stored_row_simps:
  "radacctid (cols (stored_row i fw)) = i"
  "forwarded_to_ch (stored_row i fw) = fw"
  "stored_row i fw\<lparr>forwarded_to_ch := b\<rparr> = stored_row i b"
  by (simp_all add: stored_row_def absent_row_def)

lemma fetch_w0:
  "FETCH_QUERY 2 (radacct w0) =
     Inr [select_columns (stored_row 1 False), select_columns (stored_row 2 False)]"
  by (simp add: FETCH_QUERY_def w0_def stored_row_simps)

lemma mark_w0:
  "MARK_FORWARDED_QUERY [1, 2] (radacct w0) =
     [stored_row 2 True, stored_row 0 True, stored_row 3 False, stored_row 1 True]"
  by (simp add: MARK_FORWARDED_QUERY_def w0_def stored_row_simps)

lemma fetch_w0_marked:
  "FETCH_QUERY 2 (MARK_FORWARDED_QUERY [1, 2] (radacct w0)) =
     Inr [select_columns (stored_row 3 False)]"
  by (simp add: mark_w0 FETCH_QUERY_def stored_row_simps)

theorem fetch_contract_witness:
  "FETCH_QUERY 2 (radacct w0) =
     Inr [select_columns (stored_row 1 False), select_columns (stored_row 2 False)] \<and>
   distinct (map (\<lambda>s. radacctid (cols s)) (radacct w0)) \<and>
   sorted_wrt (<) (map radacctid
     [select_columns (stored_row 1 False), select_columns (stored_row 2 False)]) \<and>
   int (length [select_columns (stored_row 1 False), select_columns (stored_row 2 False)]) \<le> 2 \<and>
   FETCH_QUERY 2 (MARK_FORWARDED_QUERY [1, 2] (radacct w0)) =
     Inr [select_columns (stored_row 3 False)] \<and>
   set (map radacctid [select_columns (stored_row 3 False)]) \<inter> set [1, 2] = {}"
proof -
  have d: "distinct (map (\<lambda>s. radacctid (cols s)) (radacct w0))"
    by (simp add: w0_def stored_row_simps)
  from fetch_contract[of 2 "radacct w0"] fetch_w0 fetch_w0_marked d
  show ?thesis by (simp add: stored_row_simps)
qed

lemma transform_stored_row:
  "transform rt0 now (select_columns (stored_row i fw)) = Inr (sent_row i)"
  by (simp add: transform_def select_columns_def stored_row_def absent_row_def rt0_def
      sent_row_def safe_int_def safe_str_def safe_datetime_def determine_event_type_def)

lemma ch_radacctid_sent_row: "ch_radacctid (sent_row i) = i"
  by (simp add: sent_row_def)

lemma BATCH_SIZE_rt0: "BATCH_SIZE rt0 = 2"
  by (simp add: rt0_def)

lemma w0_simps:
  "radius_accounting w0 = []"
  "w0\<lparr>radius_accounting := rs, radacct := tbl\<rparr> = \<lparr>radacct = tbl, radius_accounting = rs\<rparr>"
  "w0\<lparr>radius_accounting := rs\<rparr> = \<lparr>radacct = radacct w0, radius_accounting = rs\<rparr>"
  by (simp_all add: w0_def)

lemma forward_batch_w0_insert_fails:
  "forward_batch rt0 (env_ok\<lparr>insert_raises := True\<rparr>) w0 = (Inl ChError, w0)"
  by (simp add: forward_batch_def BATCH_SIZE_rt0 fetch_w0 env_ok_def transform_stored_row
      stored_row_simps)

lemma forward_batch_w0_mark_fails:
  "forward_batch rt0 (env_ok\<lparr>mark_raises := True\<rparr>) w0 =
     (Inl PgError, \<lparr>radacct = radacct w0, radius_accounting = [sent_row 1, sent_row 2]\<rparr>)"
  by (simp add: forward_batch_def BATCH_SIZE_rt0 fetch_w0 env_ok_def transform_stored_row
      stored_row_simps INSERT_CH_QUERY_def w0_simps)

lemma forward_batch_w0_ok:
  "forward_batch rt0 env_ok w0 =
     (Inr 2, \<lparr>radacct = [stored_row 2 True, stored_row 0 True, stored_row 3 False,
                         stored_row 1 True],
              radius_accounting = [sent_row 1, sent_row 2]\<rparr>)"
  by (simp add: forward_batch_def BATCH_SIZE_rt0 fetch_w0 env_ok_def transform_stored_row
      stored_row_simps INSERT_CH_QUERY_def w0_simps mark_w0)

text \<open>Rows that arrive with larger keys sort behind the rows already there.\<close>

lemma insort_key_append_le:
  "\<forall>b\<in>set B. f x \<le> f b \<Longrightarrow> insort_key f x (A @ B) = insort_key f x A @ B"
  by (induction A) (auto simp: insort_is_Cons)

lemma sort_key_append_le:
  "\<forall>x\<in>set xs. \<forall>y\<in>set ys. f x \<le> f y \<Longrightarrow>
   sort_key f (xs @ ys) = sort_key f xs @ sort_key f ys"
proof (induction xs)
  case Nil
  then show ?case by simp
next
  case (Cons x xs)
  then have "sort_key f (xs @ ys) = sort_key f xs @ sort_key f ys" by simp
  moreover have "\<forall>b\<in>set (sort_key f ys). f x \<le> f b" using Cons.prems by simp
  ultimately show ?case by (simp add: insort_key_append_le)
qed

lemma FETCH_QUERY_arrivals:
  assumes f: "FETCH_QUERY limit tbl = Inr rows"
    and later: "\<forall>s\<in>set tbl. \<forall>s'\<in>set new. radacctid (cols s) < radacctid (cols s')"
  shows "\<exists>more. FETCH_QUERY limit (tbl @ new) = Inr (rows @ more) \<and>
           set more \<subseteq> select_columns ` {s \<in> set new. \<not> forwarded_to_ch s}"
proof -
  let ?P = "\<lambda>s. \<not> forwarded_to_ch s"
  let ?k = "\<lambda>s. radacctid (cols s)"
  let ?A = "sort_key ?k (filter ?P tbl)"
  let ?B = "sort_key ?k (filter ?P new)"
  have "sort_key ?k (filter ?P (tbl @ new)) = ?A @ ?B"
    using later by (simp add: sort_key_append_le less_imp_le)
  then have "FETCH_QUERY limit (tbl @ new) =
      Inr (map select_columns (take (nat limit) ?A) @
           map select_columns (take (nat limit - length ?A) ?B))"
    using FETCH_QUERY_Inr(1,3)[OF f] by (simp add: FETCH_QUERY_def)
  moreover have "set (map select_columns (take (nat limit - length ?A) ?B))
      \<subseteq> select_columns ` {s \<in> set new. \<not> forwarded_to_ch s}"
    by (auto dest: in_set_takeD)
  ultimately show ?thesis unfolding FETCH_QUERY_Inr(2)[OF f] by blast
qed

text \<open>The exception each step can raise.\<close>

lemma safe_int_Inl: "safe_int rt v = Inl e \<Longrightarrow> e = ValueError \<or> e = TypeError"
  by (cases v) (auto simp: safe_int_def split: option.splits)

lemma transform_Inl: "transform rt now row = Inl e \<Longrightarrow> e = ValueError \<or> e = TypeError"
  unfolding transform_def Let_def
  by (auto split: sum.splits dest: safe_int_Inl)

lemma transform_rows_Inl:
  "transform_rows rt clk i rows ch_rows pg_ids = Inl e \<Longrightarrow> e = ValueError \<or> e = TypeError"
proof (induction rows arbitrary: i ch_rows pg_ids)
  case Nil
  then show ?case by simp
next
  case (Cons row rows)
  show ?case
  proof (cases "transform rt (clk i) row")
    case (Inl e')
    with Cons.prems show ?thesis by (auto dest: transform_Inl)
  next
    case (Inr c)
    with Cons.prems Cons.IH show ?thesis by auto
  qed
qed

lemma FETCH_QUERY_Inl: "FETCH_QUERY limit tbl = Inl e \<Longrightarrow> e = PgError"
  by (auto simp: FETCH_QUERY_def split: if_splits)

lemma forward_batch_ChError:
  assumes "forward_batch rt env w = (Inl ChError, w')"
  shows "insert_raises env"
proof (rule ccontr)
  assume n: "\<not> insert_raises env"
  show False
  proof (cases "fetch_raises env")
    case True
    with assms show False by (simp add: forward_batch_def)
  next
    case False
    show False
    proof (cases "FETCH_QUERY (BATCH_SIZE rt) (radacct w)")
      case (Inl e)
      with assms False FETCH_QUERY_Inl[OF Inl] show False by (simp add: forward_batch_def)
    next
      case (Inr rows)
      show False
      proof (cases "transform_rows rt (clock env) 0 rows [] []")
        case (Inl e)
        with assms False Inr transform_rows_Inl[OF Inl] show False
          by (auto simp: forward_batch_def split: if_splits)
      next
        case r: (Inr x)
        with assms False Inr n show False
          by (cases x) (auto simp: forward_batch_def Let_def split: if_splits)
      qed
    qed
  qed
qed

text \<open>
  C1. When the bulk insert raises, \<open>forward_batch\<close> ends with that exception
  and both stores are exactly as they were: no row of the batch is marked, and
  the next fetch returns what this one did. The table \<open>radacct\<close> changes in a
  cycle only when the insert did not raise and the sink holds the batch. Rows
  that arrive afterwards with larger keys are appended behind the rows
  fetched before.
\<close>

theorem insert_failure_marks_nothing:
  "(\<forall>w'. forward_batch rt env w = (Inl ChError, w') \<longrightarrow>
      w' = w \<and> insert_raises env \<and>
      FETCH_QUERY (BATCH_SIZE rt) (radacct w') = FETCH_QUERY (BATCH_SIZE rt) (radacct w)) \<and>
   (\<forall>rows x. \<not> fetch_raises env \<and> FETCH_QUERY (BATCH_SIZE rt) (radacct w) = Inr rows \<and>
      rows \<noteq> [] \<and> transform_rows rt (clock env) 0 rows [] [] = Inr x \<and> insert_raises env \<longrightarrow>
      forward_batch rt env w = (Inl ChError, w)) \<and>
   (\<forall>r w'. forward_batch rt env w = (r, w') \<and> radacct w' \<noteq> radacct w \<longrightarrow>
      \<not> insert_raises env \<and>
      (\<exists>ch_rows. ch_rows \<noteq> [] \<and> radius_accounting w' = radius_accounting w @ ch_rows)) \<and>
   (\<forall>rows new. FETCH_QUERY (BATCH_SIZE rt) (radacct w) = Inr rows \<and>
      (\<forall>s\<in>set (radacct w). \<forall>s'\<in>set new. radacctid (cols s) < radacctid (cols s')) \<longrightarrow>
      (\<exists>more. FETCH_QUERY (BATCH_SIZE rt) (radacct w @ new) = Inr (rows @ more) \<and>
         set more \<subseteq> select_columns ` {s \<in> set new. \<not> forwarded_to_ch s}))"
proof (intro conjI allI impI)
  fix w' assume a: "forward_batch rt env w = (Inl ChError, w')"
  from forward_batch_Inl[OF a] show "w' = w" by auto
  then show "FETCH_QUERY (BATCH_SIZE rt) (radacct w') = FETCH_QUERY (BATCH_SIZE rt) (radacct w)"
    by simp
  from a show "insert_raises env" by (rule forward_batch_ChError)
next
  fix rows x
  assume "\<not> fetch_raises env \<and> FETCH_QUERY (BATCH_SIZE rt) (radacct w) = Inr rows \<and>
      rows \<noteq> [] \<and> transform_rows rt (clock env) 0 rows [] [] = Inr x \<and> insert_raises env"
  then show "forward_batch rt env w = (Inl ChError, w)"
    by (cases x) (simp add: forward_batch_def)
next
  fix r w' assume a: "forward_batch rt env w = (r, w') \<and> radacct w' \<noteq> radacct w"
  show "\<not> insert_raises env"
  proof (cases r)
    case (Inl e)
    with a forward_batch_Inl[of rt env w e w'] show ?thesis by auto
  next
    case (Inr n)
    with a forward_batch_Inr[of rt env w n w'] show ?thesis by auto
  qed
  show "\<exists>ch_rows. ch_rows \<noteq> [] \<and> radius_accounting w' = radius_accounting w @ ch_rows"
  proof (cases r)
    case (Inl e)
    with a forward_batch_Inl[of rt env w e w'] show ?thesis by auto
  next
    case (Inr n)
    with a forward_batch_Inr[of rt env w n w'] obtain rows ch_rows pg_ids where
      "rows \<noteq> []" "transform_rows rt (clock env) 0 rows [] [] = Inr (ch_rows, pg_ids)"
      "radius_accounting w' = radius_accounting w @ ch_rows" by auto
    moreover from transform_rows_result[OF this(2)] have "length ch_rows = length rows" by auto
    ultimately show ?thesis by (intro exI[of _ ch_rows]) auto
  qed
next
  fix rows and new :: "'a stored list"
  assume "FETCH_QUERY (BATCH_SIZE rt) (radacct w) = Inr rows \<and>
      (\<forall>s\<in>set (radacct w). \<forall>s'\<in>set new. radacctid (cols s) < radacctid (cols s'))"
  then show "\<exists>more. FETCH_QUERY (BATCH_SIZE rt) (radacct w @ new) = Inr (rows @ more) \<and>
         set more \<subseteq> select_columns ` {s \<in> set new. \<not> forwarded_to_ch s}"
    by (intro FETCH_QUERY_arrivals) auto
qed

theorem insert_failure_marks_nothing_witness:
  "forward_batch rt0 (env_ok\<lparr>insert_raises := True\<rparr>) w0 = (Inl ChError, w0) \<and>
   insert_raises (env_ok\<lparr>insert_raises := True\<rparr>) \<and>
   FETCH_QUERY (BATCH_SIZE rt0) (radacct w0) =
     Inr [select_columns (stored_row 1 False), select_columns (stored_row 2 False)] \<and>
   forward_batch rt0 env_ok w0 =
     (Inr 2, \<lparr>radacct = [stored_row 2 True, stored_row 0 True, stored_row 3 False,
                         stored_row 1 True],
              radius_accounting = [sent_row 1, sent_row 2]\<rparr>) \<and>
   [stored_row 2 True, stored_row 0 True, stored_row 3 False, stored_row 1 True]
     \<noteq> radacct w0 \<and>
   \<not> insert_raises env_ok"
proof -
  note t = insert_failure_marks_nothing[of rt0 "env_ok\<lparr>insert_raises := True\<rparr>" w0]
  from t[THEN conjunct1, THEN spec, THEN mp, OF forward_batch_w0_insert_fails]
  have a: "insert_raises (env_ok\<lparr>insert_raises := True\<rparr>)"
    by (rule conjunct2[THEN conjunct1])
  have b: "FETCH_QUERY (BATCH_SIZE rt0) (radacct w0) =
     Inr [select_columns (stored_row 1 False), select_columns (stored_row 2 False)]"
    using fetch_w0 by (simp only: BATCH_SIZE_rt0)
  have c: "[stored_row 2 True, stored_row 0 True, stored_row 3 False, stored_row 1 True]
     \<noteq> radacct w0"
    by (simp add: w0_def stored_row_def)
  note u = insert_failure_marks_nothing[of rt0 env_ok w0]
  note third = u[THEN conjunct2, THEN conjunct2, THEN conjunct1]
  have "radacct \<lparr>radacct = [stored_row 2 True, stored_row 0 True, stored_row 3 False,
                         stored_row 1 True],
              radius_accounting = [sent_row 1, sent_row 2]\<rparr> \<noteq> radacct w0"
    using c by simp
  from third[THEN spec, THEN spec, THEN mp, OF conjI[OF forward_batch_w0_ok this]]
  have d: "\<not> insert_raises env_ok" by (rule conjunct1)
  from forward_batch_w0_insert_fails a b forward_batch_w0_ok c d show ?thesis by blast
qed

text \<open>What a cycle that has ended has done.\<close>

lemma forward_batch_ended:
  "(fetch_raises env \<longrightarrow> forward_batch rt env w = (Inl PgError, w)) \<and>
   (\<not> fetch_raises env \<and> FETCH_QUERY (BATCH_SIZE rt) (radacct w) = Inr [] \<longrightarrow>
      forward_batch rt env w = (Inr 0, w)) \<and>
   (\<forall>n w'. forward_batch rt env w = (Inr n, w') \<and> n \<noteq> 0 \<longrightarrow>
      (\<exists>rows ch_rows. FETCH_QUERY (BATCH_SIZE rt) (radacct w) = Inr rows \<and>
         n = length rows \<and> length ch_rows = length rows \<and>
         (\<forall>k<length rows. transform rt (clock env k) (rows ! k) = Inr (ch_rows ! k)) \<and>
         radius_accounting w' = radius_accounting w @ ch_rows \<and>
         radacct w' = MARK_FORWARDED_QUERY (map radacctid rows) (radacct w))) \<and>
   (\<forall>e w'. forward_batch rt env w = (Inl e, w') \<longrightarrow>
      radacct w' = radacct w \<and>
      (w' = w \<or>
       (mark_raises env \<and> e = PgError \<and>
        (\<exists>ch_rows. ch_rows \<noteq> [] \<and> radius_accounting w' = radius_accounting w @ ch_rows))))"
proof (intro conjI allI impI)
  show "forward_batch rt env w = (Inl PgError, w)" if "fetch_raises env"
    using that by (simp add: forward_batch_def)
  show "forward_batch rt env w = (Inr 0, w)"
    if "\<not> fetch_raises env \<and> FETCH_QUERY (BATCH_SIZE rt) (radacct w) = Inr []"
    using that by (simp add: forward_batch_def)
next
  fix n w' assume a: "forward_batch rt env w = (Inr n, w') \<and> n \<noteq> 0"
  with forward_batch_Inr[of rt env w n w'] obtain rows ch_rows pg_ids where
    f: "FETCH_QUERY (BATCH_SIZE rt) (radacct w) = Inr rows" and
    t: "transform_rows rt (clock env) 0 rows [] [] = Inr (ch_rows, pg_ids)" and
    n: "n = length ch_rows" and
    w': "w' = w\<lparr>radius_accounting := radius_accounting w @ ch_rows,
                 radacct := MARK_FORWARDED_QUERY pg_ids (radacct w)\<rparr>"
    by auto
  from transform_rows_result[OF t] have
    "length ch_rows = length rows" "pg_ids = map radacctid rows"
    "\<forall>k<length rows. transform rt (clock env k) (rows ! k) = Inr (ch_rows ! k)"
    by auto
  with f n w' show "\<exists>rows ch_rows. FETCH_QUERY (BATCH_SIZE rt) (radacct w) = Inr rows \<and>
         n = length rows \<and> length ch_rows = length rows \<and>
         (\<forall>k<length rows. transform rt (clock env k) (rows ! k) = Inr (ch_rows ! k)) \<and>
         radius_accounting w' = radius_accounting w @ ch_rows \<and>
         radacct w' = MARK_FORWARDED_QUERY (map radacctid rows) (radacct w)"
    by (intro exI[of _ rows] exI[of _ ch_rows]) simp
next
  fix e w' assume a: "forward_batch rt env w = (Inl e, w')"
  from forward_batch_Inl[OF a] show "radacct w' = radacct w" by auto
  from forward_batch_Inl[OF a] show "w' = w \<or>
       (mark_raises env \<and> e = PgError \<and>
        (\<exists>ch_rows. ch_rows \<noteq> [] \<and> radius_accounting w' = radius_accounting w @ ch_rows))"
  proof (elim disjE exE conjE)
    assume "w' = w" then show ?thesis by simp
  next
    fix rows ch_rows pg_ids
    assume "rows \<noteq> []" "transform_rows rt (clock env) 0 rows [] [] = Inr (ch_rows, pg_ids)"
      "mark_raises env" "e = PgError"
      "w' = w\<lparr>radius_accounting := radius_accounting w @ ch_rows\<rparr>"
    moreover from transform_rows_result[OF this(2)] have "length ch_rows = length rows" by auto
    ultimately have "mark_raises env \<and> e = PgError \<and>
        ch_rows \<noteq> [] \<and> radius_accounting w' = radius_accounting w @ ch_rows" by auto
    then show ?thesis by blast
  qed
qed

text \<open>The loop over the fetched rows, from what the transform does to each row.\<close>

lemma transform_rows_all:
  assumes "length cs = length rows"
    and "\<forall>k<length rows. transform rt (clk (i + k)) (rows ! k) = Inr (cs ! k)"
  shows "transform_rows rt clk i rows ch_rows pg_ids =
           Inr (ch_rows @ cs, pg_ids @ map radacctid rows)"
  using assms
proof (induction rows arbitrary: i cs ch_rows pg_ids)
  case Nil
  then show ?case by simp
next
  case (Cons row rows)
  from Cons.prems(1) obtain c cs' where cs: "cs = c # cs'" "length cs' = length rows"
    by (cases cs) auto
  have "0 < length (row # rows)" by simp
  with Cons.prems(2) have "transform rt (clk (i + 0)) ((row # rows) ! 0) = Inr (cs ! 0)"
    by blast
  then have c: "transform rt (clk i) row = Inr c" using cs(1) by simp
  have "\<forall>k<length rows. transform rt (clk (Suc i + k)) (rows ! k) = Inr (cs' ! k)"
  proof (intro allI impI)
    fix k assume "k < length rows"
    then have "Suc k < length (row # rows)" by simp
    with Cons.prems(2) have
      "transform rt (clk (i + Suc k)) ((row # rows) ! Suc k) = Inr (cs ! Suc k)" by blast
    then show "transform rt (clk (Suc i + k)) (rows ! k) = Inr (cs' ! k)" using cs(1) by simp
  qed
  from Cons.IH[OF cs(2) this, of "ch_rows @ [c]" "pg_ids @ [radacctid row]"] c cs(1)
  show ?case by simp
qed

lemma transform_rows_first_failure:
  assumes "k < length rows"
    and "\<forall>j<k. \<exists>c. transform rt (clk (i + j)) (rows ! j) = Inr c"
    and "transform rt (clk (i + k)) (rows ! k) = Inl e"
  shows "transform_rows rt clk i rows ch_rows pg_ids = Inl e"
  using assms
proof (induction rows arbitrary: i k ch_rows pg_ids)
  case Nil
  then show ?case by simp
next
  case (Cons row rows)
  show ?case
  proof (cases k)
    case 0
    with Cons.prems(3) show ?thesis by simp
  next
    case (Suc k')
    then have "0 < k" by simp
    with Cons.prems(2) have "\<exists>c. transform rt (clk (i + 0)) ((row # rows) ! 0) = Inr c"
      by blast
    then obtain c where c: "transform rt (clk i) row = Inr c" by auto
    have 1: "k' < length rows" using Cons.prems(1) Suc by simp
    have 2: "\<forall>j<k'. \<exists>c. transform rt (clk (Suc i + j)) (rows ! j) = Inr c"
    proof (intro allI impI)
      fix j assume "j < k'"
      then have "Suc j < k" using Suc by simp
      with Cons.prems(2) have
        "\<exists>c. transform rt (clk (i + Suc j)) ((row # rows) ! Suc j) = Inr c" by blast
      then show "\<exists>c. transform rt (clk (Suc i + j)) (rows ! j) = Inr c" by simp
    qed
    have 3: "transform rt (clk (Suc i + k')) (rows ! k') = Inl e"
      using Cons.prems(3) Suc by simp
    from Cons.IH[OF 1 2 3, of "ch_rows @ [c]" "pg_ids @ [radacctid row]"] c
    show ?thesis by simp
  qed
qed

text \<open>What a cycle does, from what each of its steps does.\<close>

lemma forward_batch_steps:
  "(\<forall>e. \<not> fetch_raises env \<and> FETCH_QUERY (BATCH_SIZE rt) (radacct w) = Inl e \<longrightarrow>
      forward_batch rt env w = (Inl e, w)) \<and>
   (\<forall>rows k e. \<not> fetch_raises env \<and> FETCH_QUERY (BATCH_SIZE rt) (radacct w) = Inr rows \<and>
      k < length rows \<and>
      (\<forall>j<k. \<exists>c. transform rt (clock env j) (rows ! j) = Inr c) \<and>
      transform rt (clock env k) (rows ! k) = Inl e \<longrightarrow>
      forward_batch rt env w = (Inl e, w)) \<and>
   (\<forall>rows cs. \<not> fetch_raises env \<and> FETCH_QUERY (BATCH_SIZE rt) (radacct w) = Inr rows \<and>
      rows \<noteq> [] \<and> length cs = length rows \<and>
      (\<forall>k<length rows. transform rt (clock env k) (rows ! k) = Inr (cs ! k)) \<longrightarrow>
      forward_batch rt env w =
        (if insert_raises env then (Inl ChError, w)
         else if mark_raises env
           then (Inl PgError, w\<lparr>radius_accounting := radius_accounting w @ cs\<rparr>)
           else (Inr (length rows),
                 w\<lparr>radius_accounting := radius_accounting w @ cs,
                   radacct := MARK_FORWARDED_QUERY (map radacctid rows) (radacct w)\<rparr>)))"
proof (intro conjI allI impI)
  fix e
  assume "\<not> fetch_raises env \<and> FETCH_QUERY (BATCH_SIZE rt) (radacct w) = Inl e"
  then show "forward_batch rt env w = (Inl e, w)" by (simp add: forward_batch_def)
next
  fix rows k e
  assume a: "\<not> fetch_raises env \<and> FETCH_QUERY (BATCH_SIZE rt) (radacct w) = Inr rows \<and>
      k < length rows \<and>
      (\<forall>j<k. \<exists>c. transform rt (clock env j) (rows ! j) = Inr c) \<and>
      transform rt (clock env k) (rows ! k) = Inl e"
  then have k: "k < length rows"
    and ok: "\<forall>j<k. \<exists>c. transform rt (clock env (0 + j)) (rows ! j) = Inr c"
    and bad: "transform rt (clock env (0 + k)) (rows ! k) = Inl e" by simp_all
  have "transform_rows rt (clock env) 0 rows [] [] = Inl e"
    by (rule transform_rows_first_failure[OF k ok bad])
  moreover from k have "rows \<noteq> []" by auto
  ultimately show "forward_batch rt env w = (Inl e, w)"
    using a by (simp add: forward_batch_def)
next
  fix rows cs
  assume a: "\<not> fetch_raises env \<and> FETCH_QUERY (BATCH_SIZE rt) (radacct w) = Inr rows \<and>
      rows \<noteq> [] \<and> length cs = length rows \<and>
      (\<forall>k<length rows. transform rt (clock env k) (rows ! k) = Inr (cs ! k))"
  then have l: "length cs = length rows"
    and ok: "\<forall>k<length rows. transform rt (clock env (0 + k)) (rows ! k) = Inr (cs ! k)"
    by simp_all
  have "transform_rows rt (clock env) 0 rows [] [] = Inr ([] @ cs, [] @ map radacctid rows)"
    by (rule transform_rows_all[OF l ok])
  then have t: "transform_rows rt (clock env) 0 rows [] [] = Inr (cs, map radacctid rows)"
    by simp
  from a have f: "\<not> fetch_raises env" "FETCH_QUERY (BATCH_SIZE rt) (radacct w) = Inr rows"
    "rows \<noteq> []" by simp_all
  show "forward_batch rt env w =
        (if insert_raises env then (Inl ChError, w)
         else if mark_raises env
           then (Inl PgError, w\<lparr>radius_accounting := radius_accounting w @ cs\<rparr>)
           else (Inr (length rows),
                 w\<lparr>radius_accounting := radius_accounting w @ cs,
                   radacct := MARK_FORWARDED_QUERY (map radacctid rows) (radacct w)\<rparr>))"
    using f l by (simp add: forward_batch_def t INSERT_CH_QUERY_def Let_def)
qed

text \<open>
  C5 (as amended). What a cycle does is decided by its steps. A fetch that
  raises, or a LIMIT the store rejects, ends the cycle with that exception and
  nothing changed; an empty fetch returns 0 and changes nothing. On a non-empty
  fetch the rows are transformed in order, and the exception of the first row
  that fails ends the cycle with nothing changed. When every row transforms,
  the batch is inserted: if the insert raises, the cycle ends with that
  exception and nothing changed; if the UPDATE raises, it ends with that
  exception, the batch in the sink and no row marked; otherwise it returns the
  number of fetched rows, with the transform of each appended to the sink in
  order and exactly their keys marked. Conversely, a cycle that returns a
  count n > 0 has fetched, written and marked n rows, and a cycle that raises
  has left \<open>radacct\<close> as it was and the sink as it was too, unless the
  exception is that of the mark step.
\<close>

theorem forward_cycle_outcomes:
  "(fetch_raises env \<longrightarrow> forward_batch rt env w = (Inl PgError, w)) \<and>
   (\<not> fetch_raises env \<and> FETCH_QUERY (BATCH_SIZE rt) (radacct w) = Inr [] \<longrightarrow>
      forward_batch rt env w = (Inr 0, w)) \<and>
   (\<forall>n w'. forward_batch rt env w = (Inr n, w') \<and> n \<noteq> 0 \<longrightarrow>
      (\<exists>rows ch_rows. FETCH_QUERY (BATCH_SIZE rt) (radacct w) = Inr rows \<and>
         n = length rows \<and> length ch_rows = length rows \<and>
         (\<forall>k<length rows. transform rt (clock env k) (rows ! k) = Inr (ch_rows ! k)) \<and>
         radius_accounting w' = radius_accounting w @ ch_rows \<and>
         radacct w' = MARK_FORWARDED_QUERY (map radacctid rows) (radacct w))) \<and>
   (\<forall>e w'. forward_batch rt env w = (Inl e, w') \<longrightarrow>
      radacct w' = radacct w \<and>
      (w' = w \<or>
       (mark_raises env \<and> e = PgError \<and>
        (\<exists>ch_rows. ch_rows \<noteq> [] \<and> radius_accounting w' = radius_accounting w @ ch_rows)))) \<and>
   (\<forall>e. \<not> fetch_raises env \<and> FETCH_QUERY (BATCH_SIZE rt) (radacct w) = Inl e \<longrightarrow>
      forward_batch rt env w = (Inl e, w)) \<and>
   (\<forall>rows k e. \<not> fetch_raises env \<and> FETCH_QUERY (BATCH_SIZE rt) (radacct w) = Inr rows \<and>
      k < length rows \<and>
      (\<forall>j<k. \<exists>c. transform rt (clock env j) (rows ! j) = Inr c) \<and>
      transform rt (clock env k) (rows ! k) = Inl e \<longrightarrow>
      forward_batch rt env w = (Inl e, w)) \<and>
   (\<forall>rows cs. \<not> fetch_raises env \<and> FETCH_QUERY (BATCH_SIZE rt) (radacct w) = Inr rows \<and>
      rows \<noteq> [] \<and> length cs = length rows \<and>
      (\<forall>k<length rows. transform rt (clock env k) (rows ! k) = Inr (cs ! k)) \<longrightarrow>
      forward_batch rt env w =
        (if insert_raises env then (Inl ChError, w)
         else if mark_raises env
           then (Inl PgError, w\<lparr>radius_accounting := radius_accounting w @ cs\<rparr>)
           else (Inr (length rows),
                 w\<lparr>radius_accounting := radius_accounting w @ cs,
                   radacct := MARK_FORWARDED_QUERY (map radacctid rows) (radacct w)\<rparr>)))"
proof -
  note b = forward_batch_ended[of env rt w]
  note f = forward_batch_steps[of env rt w]
  show ?thesis
    by (intro conjI)
      (rule b[THEN conjunct1], rule b[THEN conjunct2, THEN conjunct1],
       rule b[THEN conjunct2, THEN conjunct2, THEN conjunct1],
       rule b[THEN conjunct2, THEN conjunct2, THEN conjunct2],
       rule f[THEN conjunct1], rule f[THEN conjunct2, THEN conjunct1],
       rule f[THEN conjunct2, THEN conjunct2])
qed

theorem forward_cycle_outcomes_witness:
  "\<not> fetch_raises env_ok \<and> \<not> insert_raises env_ok \<and> \<not> mark_raises env_ok \<and>
   FETCH_QUERY (BATCH_SIZE rt0) (radacct w0) =
     Inr [select_columns (stored_row 1 False), select_columns (stored_row 2 False)] \<and>
   transform rt0 (clock env_ok 0) (select_columns (stored_row 1 False)) = Inr (sent_row 1) \<and>
   transform rt0 (clock env_ok 1) (select_columns (stored_row 2 False)) = Inr (sent_row 2) \<and>
   forward_batch rt0 env_ok w0 =
     (Inr 2, \<lparr>radacct = [stored_row 2 True, stored_row 0 True, stored_row 3 False,
                         stored_row 1 True],
              radius_accounting = [sent_row 1, sent_row 2]\<rparr>) \<and>
   forward_batch rt0 (env_ok\<lparr>mark_raises := True\<rparr>) w0 =
     (Inl PgError, \<lparr>radacct = radacct w0, radius_accounting = [sent_row 1, sent_row 2]\<rparr>) \<and>
   radacct \<lparr>radacct = radacct w0, radius_accounting = [sent_row 1, sent_row 2]\<rparr>
     = radacct w0"
proof -
  let ?rows = "[select_columns (stored_row 1 False), select_columns (stored_row 2 False)]"
  let ?cs = "[sent_row 1, sent_row 2]"
  have nf: "\<not> fetch_raises env_ok" "\<not> insert_raises env_ok" "\<not> mark_raises env_ok"
    by (simp_all add: env_ok_def)
  have fq: "FETCH_QUERY (BATCH_SIZE rt0) (radacct w0) = Inr ?rows"
    using fetch_w0 by (simp only: BATCH_SIZE_rt0)
  have t1: "transform rt0 (clock env_ok 0) (select_columns (stored_row 1 False)) = Inr (sent_row 1)"
    and t2: "transform rt0 (clock env_ok 1) (select_columns (stored_row 2 False)) = Inr (sent_row 2)"
    by (rule transform_stored_row)+
  have all: "\<forall>k<length ?rows. transform rt0 (clock env_ok k) (?rows ! k) = Inr (?cs ! k)"
  proof (intro allI impI)
    fix k assume "k < length ?rows"
    then have "k = 0 \<or> k = 1" by auto
    then show "transform rt0 (clock env_ok k) (?rows ! k) = Inr (?cs ! k)"
      using t1 t2 by auto
  qed
  note t = forward_cycle_outcomes[of env_ok rt0 w0]
  note steps = t[THEN conjunct2, THEN conjunct2, THEN conjunct2, THEN conjunct2,
      THEN conjunct2, THEN conjunct2]
  have pre: "\<not> fetch_raises env_ok \<and> FETCH_QUERY (BATCH_SIZE rt0) (radacct w0) = Inr ?rows \<and>
      ?rows \<noteq> [] \<and> length ?cs = length ?rows \<and>
      (\<forall>k<length ?rows. transform rt0 (clock env_ok k) (?rows ! k) = Inr (?cs ! k))"
    using nf(1) fq all by simp
  from steps[THEN spec, THEN spec, THEN mp, OF pre]
  have ok: "forward_batch rt0 env_ok w0 =
     (Inr 2, \<lparr>radacct = [stored_row 2 True, stored_row 0 True, stored_row 3 False,
                         stored_row 1 True],
              radius_accounting = [sent_row 1, sent_row 2]\<rparr>)"
    using nf by (simp add: stored_row_simps mark_w0 w0_simps)
  note u = forward_cycle_outcomes[of "env_ok\<lparr>mark_raises := True\<rparr>" rt0 w0]
  note ended = u[THEN conjunct2, THEN conjunct2, THEN conjunct2, THEN conjunct1]
  from ended[THEN spec, THEN spec, THEN mp, OF forward_batch_w0_mark_fails]
  have a: "radacct \<lparr>radacct = radacct w0, radius_accounting = [sent_row 1, sent_row 2]\<rparr>
     = radacct w0" by (rule conjunct1)
  from nf fq t1 t2 ok forward_batch_w0_mark_fails a show ?thesis by (intro conjI)
qed

text \<open>
  C5 as stated fails when the UPDATE raises after the insert has succeeded:
  the exception reaches the caller and the sink is no longer as before the
  write step.
\<close>

theorem exception_after_write_counterexample:
  "fst (forward_batch rt0 (env_ok\<lparr>mark_raises := True\<rparr>) w0) = Inl PgError \<and>
   snd (forward_batch rt0 (env_ok\<lparr>mark_raises := True\<rparr>) w0) \<noteq> w0 \<and>
   radius_accounting (snd (forward_batch rt0 (env_ok\<lparr>mark_raises := True\<rparr>) w0)) =
     [sent_row 1, sent_row 2] \<and>
   radius_accounting w0 = []"
  unfolding forward_batch_w0_mark_fails by (simp add: w0_def)

text \<open>
  C9. In a cycle that returns a count n > 0 the list passed to
  MARK_FORWARDED_QUERY is the list of \<open>radacctid\<close> of the rows inserted into the
  sink, in the same order, and as long as the batch and as the fetched rows. In
  every cycle, however it ends, \<open>radacct\<close> keeps its rows and their columns,
  and a row whose flag changed has the key of a fetched row.
\<close>

theorem marked_ids_are_written_ids:
  "(\<forall>n w'. forward_batch rt env w = (Inr n, w') \<and> n \<noteq> 0 \<longrightarrow>
      (\<exists>rows ch_rows pg_ids.
         FETCH_QUERY (BATCH_SIZE rt) (radacct w) = Inr rows \<and>
         transform_rows rt (clock env) 0 rows [] [] = Inr (ch_rows, pg_ids) \<and>
         radius_accounting w' = radius_accounting w @ ch_rows \<and>
         radacct w' = MARK_FORWARDED_QUERY pg_ids (radacct w) \<and>
         pg_ids = map ch_radacctid ch_rows \<and>
         pg_ids = map radacctid rows \<and>
         length pg_ids = length ch_rows \<and> length ch_rows = length rows \<and> n = length rows)) \<and>
   (\<forall>r w'. forward_batch rt env w = (r, w') \<longrightarrow>
      length (radacct w') = length (radacct w) \<and>
      (\<forall>i<length (radacct w).
         cols (radacct w' ! i) = cols (radacct w ! i) \<and>
         (forwarded_to_ch (radacct w' ! i) \<noteq> forwarded_to_ch (radacct w ! i) \<longrightarrow>
            (\<exists>rows. FETCH_QUERY (BATCH_SIZE rt) (radacct w) = Inr rows \<and>
               radacctid (cols (radacct w ! i)) \<in> set (map radacctid rows)))))"
proof (intro conjI allI impI)
  fix n w' assume a: "forward_batch rt env w = (Inr n, w') \<and> n \<noteq> 0"
  with forward_batch_Inr[of rt env w n w'] obtain rows ch_rows pg_ids where
    f: "FETCH_QUERY (BATCH_SIZE rt) (radacct w) = Inr rows" and
    t: "transform_rows rt (clock env) 0 rows [] [] = Inr (ch_rows, pg_ids)" and
    n: "n = length ch_rows" and
    w': "w' = w\<lparr>radius_accounting := radius_accounting w @ ch_rows,
                 radacct := MARK_FORWARDED_QUERY pg_ids (radacct w)\<rparr>"
    by auto
  from transform_rows_result[OF t] have
    "length ch_rows = length rows" "pg_ids = map radacctid rows"
    "map ch_radacctid ch_rows = map radacctid rows"
    by auto
  with f t n w' show "\<exists>rows ch_rows pg_ids.
         FETCH_QUERY (BATCH_SIZE rt) (radacct w) = Inr rows \<and>
         transform_rows rt (clock env) 0 rows [] [] = Inr (ch_rows, pg_ids) \<and>
         radius_accounting w' = radius_accounting w @ ch_rows \<and>
         radacct w' = MARK_FORWARDED_QUERY pg_ids (radacct w) \<and>
         pg_ids = map ch_radacctid ch_rows \<and>
         pg_ids = map radacctid rows \<and>
         length pg_ids = length ch_rows \<and> length ch_rows = length rows \<and> n = length rows"
    by (intro exI[of _ rows] exI[of _ ch_rows] exI[of _ pg_ids]) simp
next
  fix r w' assume a: "forward_batch rt env w = (r, w')"
  have shape: "radacct w' = radacct w \<or>
      (\<exists>rows. FETCH_QUERY (BATCH_SIZE rt) (radacct w) = Inr rows \<and>
         radacct w' = MARK_FORWARDED_QUERY (map radacctid rows) (radacct w))"
  proof (cases r)
    case (Inl e)
    with a forward_batch_Inl[of rt env w e w'] show ?thesis by auto
  next
    case (Inr n)
    with a forward_batch_Inr[of rt env w n w'] show ?thesis
      by (auto dest: transform_rows_result)
  qed
  then show "length (radacct w') = length (radacct w)"
    by (auto simp: MARK_FORWARDED_QUERY_def)
  fix i assume i: "i < length (radacct w)"
  from shape i show "cols (radacct w' ! i) = cols (radacct w ! i)"
    by (auto simp: MARK_FORWARDED_QUERY_def)
  assume "forwarded_to_ch (radacct w' ! i) \<noteq> forwarded_to_ch (radacct w ! i)"
  with shape i show "\<exists>rows. FETCH_QUERY (BATCH_SIZE rt) (radacct w) = Inr rows \<and>
               radacctid (cols (radacct w ! i)) \<in> set (map radacctid rows)"
    by (auto simp: MARK_FORWARDED_QUERY_def split: if_splits)
qed

theorem marked_ids_are_written_ids_witness:
  "forward_batch rt0 env_ok w0 =
     (Inr 2, \<lparr>radacct = [stored_row 2 True, stored_row 0 True, stored_row 3 False,
                         stored_row 1 True],
              radius_accounting = [sent_row 1, sent_row 2]\<rparr>) \<and>
   (2::nat) \<noteq> 0 \<and>
   (\<exists>rows ch_rows pg_ids.
      FETCH_QUERY (BATCH_SIZE rt0) (radacct w0) = Inr rows \<and>
      transform_rows rt0 (clock env_ok) 0 rows [] [] = Inr (ch_rows, pg_ids) \<and>
      pg_ids = map ch_radacctid ch_rows \<and> pg_ids = map radacctid rows)"
proof -
  note t = marked_ids_are_written_ids[of rt0 env_ok w0]
  have n: "(2::nat) \<noteq> 0" by simp
  from t[THEN conjunct1, THEN spec, THEN spec, THEN mp, OF conjI[OF forward_batch_w0_ok n]]
  have "\<exists>rows ch_rows pg_ids.
      FETCH_QUERY (BATCH_SIZE rt0) (radacct w0) = Inr rows \<and>
      transform_rows rt0 (clock env_ok) 0 rows [] [] = Inr (ch_rows, pg_ids) \<and>
      pg_ids = map ch_radacctid ch_rows \<and> pg_ids = map radacctid rows"
    by blast
  with forward_batch_w0_ok n show ?thesis by blast
qed

section \<open>Properties of the connection acquisition\<close>

text \<open>
  One step of either retry loop, then its three ways to go: a connection after
  n failed attempts, the RuntimeError after n failed attempts, or no end.
\<close>

lemma shift_failed:
  assumes "\<forall>k<Suc n. run (t + k) \<and> att (t + k) = None"
  shows "run t" "att t = None" "\<forall>k<n. run (Suc t + k) \<and> att (Suc t + k) = None"
proof -
  from assms have "run (t + 0) \<and> att (t + 0) = None" by blast
  then show "run t" "att t = None" by simp_all
  show "\<forall>k<n. run (Suc t + k) \<and> att (Suc t + k) = None"
  proof (intro allI impI)
    fix k assume "k < n"
    then have "Suc k < Suc n" by simp
    with assms have "run (t + Suc k) \<and> att (t + Suc k) = None" by blast
    then show "run (Suc t + k) \<and> att (Suc t + k) = None" by simp
  qed
qed

lemma connect_postgres_step:
  "run t \<Longrightarrow> att t = None \<Longrightarrow>
   connect_postgres run att t evs = connect_postgres run att (Suc t) (evs @ [ConnectPg, Sleep 5])"
  "run t \<Longrightarrow> att t = Some c \<Longrightarrow>
   connect_postgres run att t evs = Some (Inr c, Suc t, evs @ [ConnectPg])"
  "\<not> run t \<Longrightarrow> connect_postgres run att t evs = Some (Inl RuntimeError, Suc t, evs)"
  by (subst connect_postgres.simps, simp)+


lemma connect_postgres_returns:
  assumes "\<forall>k<n. run (t + k) \<and> att (t + k) = None"
    and "run (t + n)" and "att (t + n) = Some c"
  shows "connect_postgres run att t evs =
    Some (Inr c, Suc (t + n), evs @ concat (replicate n [ConnectPg, Sleep 5]) @ [ConnectPg])"
  using assms
proof (induction n arbitrary: t evs)
  case 0
  then show ?case by (simp add: connect_postgres_step(2))
next
  case (Suc n)
  note f = shift_failed[OF Suc.prems(1)]
  have "connect_postgres run att (Suc t) (evs @ [ConnectPg, Sleep 5]) =
    Some (Inr c, Suc (Suc t + n),
      (evs @ [ConnectPg, Sleep 5]) @ concat (replicate n [ConnectPg, Sleep 5]) @ [ConnectPg])"
    using f(3) Suc.prems(2,3) by (intro Suc.IH) simp_all
  then show ?case by (simp add: connect_postgres_step(1)[of run t att evs, OF f(1,2)])
qed

lemma connect_postgres_raises:
  assumes "\<forall>k<n. run (t + k) \<and> att (t + k) = None"
    and "\<not> run (t + n)"
  shows "connect_postgres run att t evs =
    Some (Inl RuntimeError, Suc (t + n), evs @ concat (replicate n [ConnectPg, Sleep 5]))"
  using assms
proof (induction n arbitrary: t evs)
  case 0
  then show ?case by (simp add: connect_postgres_step(3))
next
  case (Suc n)
  note f = shift_failed[OF Suc.prems(1)]
  have "connect_postgres run att (Suc t) (evs @ [ConnectPg, Sleep 5]) =
    Some (Inl RuntimeError, Suc (Suc t + n),
      (evs @ [ConnectPg, Sleep 5]) @ concat (replicate n [ConnectPg, Sleep 5]))"
    using f(3) Suc.prems(2) by (intro Suc.IH) simp_all
  then show ?case by (simp add: connect_postgres_step(1)[of run t att evs, OF f(1,2)])
qed


lemma connect_postgres_Some:
  assumes "connect_postgres run att t evs = Some res"
  shows "\<exists>n. (\<forall>k<n. run (t + k) \<and> att (t + k) = None) \<and>
     (run (t + n) \<longrightarrow> att (t + n) \<noteq> None)"
proof (rule connect_postgres.raw_induct[where
      P = "\<lambda>run att t evs res. \<exists>n. (\<forall>k<n. run (t + k) \<and> att (t + k) = None) \<and>
             (run (t + n) \<longrightarrow> att (t + n) \<noteq> None)", OF _ assms], goal_cases)
  case (1 f run att t evs res)
  show ?case
  proof (cases "run t \<and> att t = None")
    case False
    then have "(\<forall>k<0. run (t + k) \<and> att (t + k) = None) \<and>
        (run (t + 0) \<longrightarrow> att (t + 0) \<noteq> None)" by simp
    then show ?thesis by (rule exI)
  next
    case True
    with 1(2) have "f run att (Suc t) (evs @ [ConnectPg, Sleep 5]) = Some res"
      by simp
    from 1(1)[OF this] obtain n where
      n: "\<forall>k<n. run (Suc t + k) \<and> att (Suc t + k) = None"
      "run (Suc t + n) \<longrightarrow> att (Suc t + n) \<noteq> None"
      by blast
    have "\<forall>k<Suc n. run (t + k) \<and> att (t + k) = None"
    proof (intro allI impI)
      fix k assume k: "k < Suc n"
      show "run (t + k) \<and> att (t + k) = None"
      proof (cases k)
        case 0
        with True show ?thesis by simp
      next
        case (Suc j)
        with k have "j < n" by simp
        with n(1) have "run (Suc t + j) \<and> att (Suc t + j) = None" by blast
        with Suc show ?thesis by simp
      qed
    qed
    moreover have "run (t + Suc n) \<longrightarrow> att (t + Suc n) \<noteq> None" using n(2) by simp
    ultimately show ?thesis by blast
  qed
qed


lemma connect_postgres_forever:
  assumes "\<forall>k. run (t + k) \<and> att (t + k) = None"
  shows "connect_postgres run att t evs = None"
proof (cases "connect_postgres run att t evs")
  case None
  then show ?thesis .
next
  case (Some res)
  from connect_postgres_Some[OF Some] obtain n where
    "run (t + n) \<longrightarrow> att (t + n) \<noteq> None" by blast
  moreover from assms have "run (t + n) \<and> att (t + n) = None" by (rule spec)
  ultimately show ?thesis by simp
qed

lemma connect_postgres_Inl:
  assumes "connect_postgres run att t evs = Some (Inl e, t', evs')"
  shows "e = RuntimeError \<and> 0 < t' \<and> \<not> run (t' - 1)"
proof -
  from connect_postgres_Some[OF assms] obtain n where
    n: "\<forall>k<n. run (t + k) \<and> att (t + k) = None" "run (t + n) \<longrightarrow> att (t + n) \<noteq> None"
    by blast
  show ?thesis
  proof (cases "run (t + n)")
    case True
    with n(2) obtain c where "att (t + n) = Some c" by auto
    from connect_postgres_returns[OF n(1) True this, of evs] assms show ?thesis by simp
  next
    case False
    from connect_postgres_raises[OF n(1) False, of evs] assms False show ?thesis by auto
  qed
qed
lemma connect_clickhouse_step:
  "run t \<Longrightarrow> att t = None \<Longrightarrow>
   connect_clickhouse run att t evs = connect_clickhouse run att (Suc t) (evs @ [ConnectCh, Sleep 5])"
  "run t \<Longrightarrow> att t = Some c \<Longrightarrow>
   connect_clickhouse run att t evs = Some (Inr c, Suc t, evs @ [ConnectCh])"
  "\<not> run t \<Longrightarrow> connect_clickhouse run att t evs = Some (Inl RuntimeError, Suc t, evs)"
  by (subst connect_clickhouse.simps, simp)+


lemma connect_clickhouse_returns:
  assumes "\<forall>k<n. run (t + k) \<and> att (t + k) = None"
    and "run (t + n)" and "att (t + n) = Some c"
  shows "connect_clickhouse run att t evs =
    Some (Inr c, Suc (t + n), evs @ concat (replicate n [ConnectCh, Sleep 5]) @ [ConnectCh])"
  using assms
proof (induction n arbitrary: t evs)
  case 0
  then show ?case by (simp add: connect_clickhouse_step(2))
next
  case (Suc n)
  note f = shift_failed[OF Suc.prems(1)]
  have "connect_clickhouse run att (Suc t) (evs @ [ConnectCh, Sleep 5]) =
    Some (Inr c, Suc (Suc t + n),
      (evs @ [ConnectCh, Sleep 5]) @ concat (replicate n [ConnectCh, Sleep 5]) @ [ConnectCh])"
    using f(3) Suc.prems(2,3) by (intro Suc.IH) simp_all
  then show ?case by (simp add: connect_clickhouse_step(1)[of run t att evs, OF f(1,2)])
qed

lemma connect_clickhouse_raises:
  assumes "\<forall>k<n. run (t + k) \<and> att (t + k) = None"
    and "\<not> run (t + n)"
  shows "connect_clickhouse run att t evs =
    Some (Inl RuntimeError, Suc (t + n), evs @ concat (replicate n [ConnectCh, Sleep 5]))"
  using assms
proof (induction n arbitrary: t evs)
  case 0
  then show ?case by (simp add: connect_clickhouse_step(3))
next
  case (Suc n)
  note f = shift_failed[OF Suc.prems(1)]
  have "connect_clickhouse run att (Suc t) (evs @ [ConnectCh, Sleep 5]) =
    Some (Inl RuntimeError, Suc (Suc t + n),
      (evs @ [ConnectCh, Sleep 5]) @ concat (replicate n [ConnectCh, Sleep 5]))"
    using f(3) Suc.prems(2) by (intro Suc.IH) simp_all
  then show ?case by (simp add: connect_clickhouse_step(1)[of run t att evs, OF f(1,2)])
qed


lemma connect_clickhouse_Some:
  assumes "connect_clickhouse run att t evs = Some res"
  shows "\<exists>n. (\<forall>k<n. run (t + k) \<and> att (t + k) = None) \<and>
     (run (t + n) \<longrightarrow> att (t + n) \<noteq> None)"
proof (rule connect_clickhouse.raw_induct[where
      P = "\<lambda>run att t evs res. \<exists>n. (\<forall>k<n. run (t + k) \<and> att (t + k) = None) \<and>
             (run (t + n) \<longrightarrow> att (t + n) \<noteq> None)", OF _ assms], goal_cases)
  case (1 f run att t evs res)
  show ?case
  proof (cases "run t \<and> att t = None")
    case False
    then have "(\<forall>k<0. run (t + k) \<and> att (t + k) = None) \<and>
        (run (t + 0) \<longrightarrow> att (t + 0) \<noteq> None)" by simp
    then show ?thesis by (rule exI)
  next
    case True
    with 1(2) have "f run att (Suc t) (evs @ [ConnectCh, Sleep 5]) = Some res"
      by simp
    from 1(1)[OF this] obtain n where
      n: "\<forall>k<n. run (Suc t + k) \<and> att (Suc t + k) = None"
      "run (Suc t + n) \<longrightarrow> att (Suc t + n) \<noteq> None"
      by blast
    have "\<forall>k<Suc n. run (t + k) \<and> att (t + k) = None"
    proof (intro allI impI)
      fix k assume k: "k < Suc n"
      show "run (t + k) \<and> att (t + k) = None"
      proof (cases k)
        case 0
        with True show ?thesis by simp
      next
        case (Suc j)
        with k have "j < n" by simp
        with n(1) have "run (Suc t + j) \<and> att (Suc t + j) = None" by blast
        with Suc show ?thesis by simp
      qed
    qed
    moreover have "run (t + Suc n) \<longrightarrow> att (t + Suc n) \<noteq> None" using n(2) by simp
    ultimately show ?thesis by blast
  qed
qed


lemma connect_clickhouse_forever:
  assumes "\<forall>k. run (t + k) \<and> att (t + k) = None"
  shows "connect_clickhouse run att t evs = None"
proof (cases "connect_clickhouse run att t evs")
  case None
  then show ?thesis .
next
  case (Some res)
  from connect_clickhouse_Some[OF Some] obtain n where
    "run (t + n) \<longrightarrow> att (t + n) \<noteq> None" by blast
  moreover from assms have "run (t + n) \<and> att (t + n) = None" by (rule spec)
  ultimately show ?thesis by simp
qed

lemma connect_clickhouse_Inl:
  assumes "connect_clickhouse run att t evs = Some (Inl e, t', evs')"
  shows "e = RuntimeError \<and> 0 < t' \<and> \<not> run (t' - 1)"
proof -
  from connect_clickhouse_Some[OF assms] obtain n where
    n: "\<forall>k<n. run (t + k) \<and> att (t + k) = None" "run (t + n) \<longrightarrow> att (t + n) \<noteq> None"
    by blast
  show ?thesis
  proof (cases "run (t + n)")
    case True
    with n(2) obtain c where "att (t + n) = Some c" by auto
    from connect_clickhouse_returns[OF n(1) True this, of evs] assms show ?thesis by simp
  next
    case False
    from connect_clickhouse_raises[OF n(1) False, of evs] assms False show ?thesis by auto
  qed
qed

text \<open>
  C8. Either acquisition makes one attempt per reading of \<open>running\<close> that finds
  it set, sleeps 5 seconds after each failed attempt and then reads the flag
  again. It returns the connection of the first attempt that succeeds; it
  raises RuntimeError exactly when a reading finds the flag cleared, and then
  without a further attempt; while every reading finds the flag set it never
  raises, and when in addition every attempt fails it never returns.
\<close>

theorem connect_retries_until_shutdown:
  "(\<forall>n c. (\<forall>k<n. run (t + k) \<and> att (t + k) = None) \<and> run (t + n) \<and> att (t + n) = Some c \<longrightarrow>
      connect_postgres run att t evs =
        Some (Inr c, Suc (t + n), evs @ concat (replicate n [ConnectPg, Sleep 5]) @ [ConnectPg]) \<and>
      connect_clickhouse run att t evs =
        Some (Inr c, Suc (t + n), evs @ concat (replicate n [ConnectCh, Sleep 5]) @ [ConnectCh])) \<and>
   (\<forall>n. (\<forall>k<n. run (t + k) \<and> att (t + k) = None) \<and> \<not> run (t + n) \<longrightarrow>
      connect_postgres run att t evs =
        Some (Inl RuntimeError, Suc (t + n), evs @ concat (replicate n [ConnectPg, Sleep 5])) \<and>
      connect_clickhouse run att t evs =
        Some (Inl RuntimeError, Suc (t + n), evs @ concat (replicate n [ConnectCh, Sleep 5]))) \<and>
   ((\<forall>k. run (t + k) \<and> att (t + k) = None) \<longrightarrow>
      connect_postgres run att t evs = None \<and> connect_clickhouse run att t evs = None) \<and>
   (\<forall>e t' evs'. connect_postgres run att t evs = Some (Inl e, t', evs') \<or>
        connect_clickhouse run att t evs = Some (Inl e, t', evs') \<longrightarrow>
      e = RuntimeError \<and> 0 < t' \<and> \<not> run (t' - 1)) \<and>
   ((\<forall>k. run k) \<longrightarrow>
      (\<forall>e t' evs'. connect_postgres run att t evs \<noteq> Some (Inl e, t', evs') \<and>
         connect_clickhouse run att t evs \<noteq> Some (Inl e, t', evs')))"
proof (intro conjI allI impI)
  fix n c
  assume a: "(\<forall>k<n. run (t + k) \<and> att (t + k) = None) \<and> run (t + n) \<and> att (t + n) = Some c"
  then have f: "\<forall>k<n. run (t + k) \<and> att (t + k) = None" and r: "run (t + n)"
    and c: "att (t + n) = Some c" by blast+
  show "connect_postgres run att t evs =
        Some (Inr c, Suc (t + n), evs @ concat (replicate n [ConnectPg, Sleep 5]) @ [ConnectPg])"
    by (rule connect_postgres_returns[OF f r c])
  show "connect_clickhouse run att t evs =
        Some (Inr c, Suc (t + n), evs @ concat (replicate n [ConnectCh, Sleep 5]) @ [ConnectCh])"
    by (rule connect_clickhouse_returns[OF f r c])
next
  fix n
  assume a: "(\<forall>k<n. run (t + k) \<and> att (t + k) = None) \<and> \<not> run (t + n)"
  then have f: "\<forall>k<n. run (t + k) \<and> att (t + k) = None" and r: "\<not> run (t + n)" by blast+
  show "connect_postgres run att t evs =
        Some (Inl RuntimeError, Suc (t + n), evs @ concat (replicate n [ConnectPg, Sleep 5]))"
    by (rule connect_postgres_raises[OF f r])
  show "connect_clickhouse run att t evs =
        Some (Inl RuntimeError, Suc (t + n), evs @ concat (replicate n [ConnectCh, Sleep 5]))"
    by (rule connect_clickhouse_raises[OF f r])
next
  assume a: "\<forall>k. run (t + k) \<and> att (t + k) = None"
  show "connect_postgres run att t evs = None" by (rule connect_postgres_forever[OF a])
  show "connect_clickhouse run att t evs = None" by (rule connect_clickhouse_forever[OF a])
next
  fix e t' evs'
  assume a: "connect_postgres run att t evs = Some (Inl e, t', evs') \<or>
        connect_clickhouse run att t evs = Some (Inl e, t', evs')"
  then have "e = RuntimeError \<and> 0 < t' \<and> \<not> run (t' - 1)"
    using connect_postgres_Inl connect_clickhouse_Inl by blast
  then show "e = RuntimeError" "0 < t'" "\<not> run (t' - 1)" by blast+
next
  fix e t' evs' assume a: "\<forall>k. run k"
  show "connect_postgres run att t evs \<noteq> Some (Inl e, t', evs')"
    using connect_postgres_Inl[of run att t evs e t' evs'] a by blast
  show "connect_clickhouse run att t evs \<noteq> Some (Inl e, t', evs')"
    using connect_clickhouse_Inl[of run att t evs e t' evs'] a by blast
qed

theorem connect_retries_until_shutdown_witness:
  "connect_postgres (\<lambda>k. True) (\<lambda>k. if k < 2 then None else Some 7) 0 [] =
     Some (Inr 7, 3, [ConnectPg, Sleep 5, ConnectPg, Sleep 5, ConnectPg]) \<and>
   connect_clickhouse (\<lambda>k. k < 2) (\<lambda>k. None) 0 [] =
     Some (Inl RuntimeError, 3, [ConnectCh, Sleep 5, ConnectCh, Sleep 5]) \<and>
   connect_postgres (\<lambda>k. True) (\<lambda>k. None) 0 [] = None"
proof -
  note a = connect_retries_until_shutdown[of "\<lambda>k. True" 0 "\<lambda>k. if k < 2 then None else Some 7" "[]"]
  have "connect_postgres (\<lambda>k. True) (\<lambda>k. if k < 2 then None else Some 7) 0 [] =
     Some (Inr 7, Suc (0 + 2), [] @ concat (replicate 2 [ConnectPg, Sleep 5]) @ [ConnectPg])"
    by (rule a[THEN conjunct1, THEN spec, THEN spec, THEN mp, THEN conjunct1]) simp
  then have 1: "connect_postgres (\<lambda>k. True) (\<lambda>k. if k < 2 then None else Some 7) 0 [] =
     Some (Inr 7, 3, [ConnectPg, Sleep 5, ConnectPg, Sleep 5, ConnectPg])"
    by (simp add: numeral_2_eq_2 numeral_3_eq_3)
  note b = connect_retries_until_shutdown[of "\<lambda>k. k < 2" 0 "\<lambda>k. None" "[]"]
  have "connect_clickhouse (\<lambda>k. k < 2) (\<lambda>k. None) 0 [] =
     Some (Inl RuntimeError, Suc (0 + 2), [] @ concat (replicate 2 [ConnectCh, Sleep 5]))"
    by (rule b[THEN conjunct2, THEN conjunct1, THEN spec, THEN mp, THEN conjunct2]) simp
  then have 2: "connect_clickhouse (\<lambda>k. k < 2) (\<lambda>k. None) 0 [] =
     Some (Inl RuntimeError, 3, [ConnectCh, Sleep 5, ConnectCh, Sleep 5])"
    by (simp add: numeral_2_eq_2 numeral_3_eq_3)
  note c = connect_retries_until_shutdown[of "\<lambda>k. True" 0 "\<lambda>k. None" "[]"]
  have 3: "connect_postgres (\<lambda>k. True) (\<lambda>k. None) 0 [] = None"
    by (rule c[THEN conjunct2, THEN conjunct2, THEN conjunct1, THEN mp, THEN conjunct1]) simp
  from 1 2 3 show ?thesis by blast
qed

section \<open>Properties of the drain loop\<close>

text \<open>
  A cycle in which nothing fails forwards min(N, m) of the m rows still to be
  forwarded and leaves m - N of them.
\<close>

lemma transform_rows_succeeds:
  assumes "\<forall>row\<in>set rows. \<forall>now. \<exists>c. transform rt now row = Inr c"
  shows "\<exists>x. transform_rows rt clk i rows ch_rows pg_ids = Inr x"
  using assms
proof (induction rows arbitrary: i ch_rows pg_ids)
  case Nil
  then show ?case by simp
next
  case (Cons row rows)
  from Cons.prems have "\<forall>now. \<exists>c. transform rt now row = Inr c" by simp
  then have "\<exists>c. transform rt (clk i) row = Inr c" by (rule spec)
  then obtain c where c: "transform rt (clk i) row = Inr c" by (rule exE)
  from Cons.prems have "\<forall>row\<in>set rows. \<forall>now. \<exists>c. transform rt now row = Inr c" by simp
  from Cons.IH[OF this, of "Suc i" "ch_rows @ [c]" "pg_ids @ [radacctid row]"] c
  show ?case by simp
qed

lemma unmarked_after_take:
  assumes "distinct (map f S)"
  shows "filter (\<lambda>s. f s \<notin> set (map f (take n S))) S = drop n S"
proof -
  have d: "distinct (map f (take n S) @ map f (drop n S))"
    using assms by (simp flip: map_append)
  have "filter (\<lambda>s. f s \<notin> set (map f (take n S))) (take n S) = []"
    by (auto simp: filter_empty_conv)
  moreover have "filter (\<lambda>s. f s \<notin> set (map f (take n S))) (drop n S) = drop n S"
    using d by (auto simp: filter_id_conv)
  ultimately have "filter (\<lambda>s. f s \<notin> set (map f (take n S))) (take n S @ drop n S) = drop n S"
    by (simp only: filter_append append_Nil)
  then show ?thesis by simp
qed

lemma MARK_FORWARDED_QUERY_count:
  assumes "distinct (map (\<lambda>s. radacctid (cols s)) tbl)"
  shows "length (filter (\<lambda>s. \<not> forwarded_to_ch s)
           (MARK_FORWARDED_QUERY
              (map (\<lambda>s. radacctid (cols s))
                 (take n (sort_key (\<lambda>s. radacctid (cols s))
                            (filter (\<lambda>s. \<not> forwarded_to_ch s) tbl)))) tbl))
         = length (filter (\<lambda>s. \<not> forwarded_to_ch s) tbl) - n"
proof -
  let ?k = "\<lambda>s. radacctid (cols s)"
  let ?U = "filter (\<lambda>s. \<not> forwarded_to_ch s) tbl"
  let ?S = "sort_key ?k ?U"
  let ?ids = "map ?k (take n ?S)"
  let ?Q = "\<lambda>s. ?k s \<notin> set ?ids"
  have dS: "distinct (map ?k ?S)" by (rule distinct_keys_sort_filter[OF assms])
  have "length (filter (\<lambda>s. \<not> forwarded_to_ch s) (MARK_FORWARDED_QUERY ?ids tbl))
      = length (filter (\<lambda>s. \<not> forwarded_to_ch s \<and> ?Q s) tbl)"
    unfolding MARK_FORWARDED_QUERY_def filter_map length_map
    by (rule arg_cong[where f = length], rule filter_cong) auto
  also have "\<dots> = length (filter ?Q ?U)"
    by (simp add: conj_commute)
  also have "\<dots> = length (filter ?Q ?S)"
    by (simp add: filter_sort)
  also have "\<dots> = length (drop n ?S)"
    using unmarked_after_take[OF dS, of n] by simp
  also have "\<dots> = length ?U - n" by simp
  finally show ?thesis .
qed

lemma forward_batch_progress:
  assumes nf: "\<not> fetch_raises env" "\<not> insert_raises env" "\<not> mark_raises env"
    and N: "BATCH_SIZE rt = int N" "int N < 2 ^ 63"
    and d: "distinct (map (\<lambda>s. radacctid (cols s)) (radacct w))"
    and tr: "\<forall>x\<in>set (radacct w). \<not> forwarded_to_ch x \<longrightarrow>
               (\<forall>now. \<exists>c. transform rt now (select_columns x) = Inr c)"
  shows "\<exists>w'. forward_batch rt env w = (Inr (min N (unforwarded w)), w') \<and>
     unforwarded w' = unforwarded w - N \<and>
     distinct (map (\<lambda>s. radacctid (cols s)) (radacct w')) \<and>
     (\<forall>x\<in>set (radacct w'). \<not> forwarded_to_ch x \<longrightarrow>
               (\<forall>now. \<exists>c. transform rt now (select_columns x) = Inr c))"
proof -
  let ?k = "\<lambda>s. radacctid (cols s)"
  let ?U = "filter (\<lambda>s. \<not> forwarded_to_ch s) (radacct w)"
  let ?S = "sort_key ?k ?U"
  let ?rows = "map select_columns (take N ?S)"
  have f: "FETCH_QUERY (BATCH_SIZE rt) (radacct w) = Inr ?rows"
    using N(2) by (simp add: FETCH_QUERY_def N(1))
  have len: "length ?rows = min N (unforwarded w)"
    by (simp add: unforwarded_def min.commute)
  show ?thesis
  proof (cases "?rows = []")
    case True
    then have "length ?rows = 0" by (simp only: list.size)
    then have z: "min N (unforwarded w) = 0" using len by (simp only:)
    then have "unforwarded w - N = unforwarded w" by (auto simp: min_def split: if_splits)
    moreover have "forward_batch rt env w = (Inr 0, w)"
      using nf True by (simp add: forward_batch_def f)
    ultimately show ?thesis using z d tr by auto
  next
    case False
    have "\<forall>row\<in>set ?rows. \<forall>now. \<exists>c. transform rt now row = Inr c"
    proof
      fix row assume "row \<in> set ?rows"
      from FETCH_QUERY_from[OF f this] tr
      show "\<forall>now. \<exists>c. transform rt now row = Inr c" by blast
    qed
    from transform_rows_succeeds[OF this, of "clock env" 0 "[]" "[]"]
    obtain ch_rows pg_ids where
      t: "transform_rows rt (clock env) 0 ?rows [] [] = Inr (ch_rows, pg_ids)"
      by (metis surj_pair)
    from transform_rows_result[OF t] have
      l: "length ch_rows = length ?rows" and ids: "pg_ids = map radacctid ?rows" by auto
    have ids': "pg_ids = map ?k (take N ?S)" unfolding ids by (simp add: o_def)
    let ?w' = "w\<lparr>radius_accounting := radius_accounting w @ ch_rows,
                  radacct := MARK_FORWARDED_QUERY pg_ids (radacct w)\<rparr>"
    have fb: "forward_batch rt env w = (Inr (min N (unforwarded w)), ?w')"
      using nf False l len
      by (simp add: forward_batch_def f t INSERT_CH_QUERY_def del: map_is_Nil_conv)
    have u: "unforwarded ?w' = unforwarded w - N"
      unfolding unforwarded_def ids' using MARK_FORWARDED_QUERY_count[OF d, of N] by simp
    have d': "distinct (map ?k (radacct ?w'))"
      using d by (simp add: MARK_FORWARDED_QUERY_def o_def if_distrib cong: if_cong)
    have tr': "\<forall>x\<in>set (radacct ?w'). \<not> forwarded_to_ch x \<longrightarrow>
               (\<forall>now. \<exists>c. transform rt now (select_columns x) = Inr c)"
      using tr by (auto simp: MARK_FORWARDED_QUERY_def split: if_splits)
    from fb u d' tr' show ?thesis by blast
  qed
qed

lemma call_forward_batch_ready:
  assumes "drain_ready rt out N (stores s)"
  shows "\<exists>w'. call_forward_batch rt out s =
           (Inr (min N (unforwarded (stores s))),
            s\<lparr>stores := w', tick := Suc (tick s),
              events := events s @ [ForwardBatch (Inr (min N (unforwarded (stores s))))]\<rparr>) \<and>
         unforwarded w' = unforwarded (stores s) - N \<and> drain_ready rt out N w'"
proof -
  from assms have
    calm: "\<forall>t. running out t \<and> \<not> fetch_raises (cycle out t) \<and>
           \<not> insert_raises (cycle out t) \<and> \<not> mark_raises (cycle out t)" and
    N: "BATCH_SIZE rt = int N" "int N < 2 ^ 63" and
    d: "distinct (map (\<lambda>s. radacctid (cols s)) (radacct (stores s)))" and
    tr: "\<forall>x\<in>set (radacct (stores s)). \<not> forwarded_to_ch x \<longrightarrow>
         (\<forall>now. \<exists>c. transform rt now (select_columns x) = Inr c)"
    unfolding drain_ready_def by blast+
  from calm have nf: "\<not> fetch_raises (cycle out (tick s))" "\<not> insert_raises (cycle out (tick s))"
    "\<not> mark_raises (cycle out (tick s))" by blast+
  from forward_batch_progress[OF nf N d tr] obtain w' where
    fb: "forward_batch rt (cycle out (tick s)) (stores s) = (Inr (min N (unforwarded (stores s))), w')"
    and rest: "unforwarded w' = unforwarded (stores s) - N"
      "distinct (map (\<lambda>s. radacctid (cols s)) (radacct w'))"
      "\<forall>x\<in>set (radacct w'). \<not> forwarded_to_ch x \<longrightarrow>
         (\<forall>now. \<exists>c. transform rt now (select_columns x) = Inr c)"
    by blast
  have "drain_ready rt out N w'" unfolding drain_ready_def using calm N rest(2,3) by blast
  moreover have "call_forward_batch rt out s =
           (Inr (min N (unforwarded (stores s))),
            s\<lparr>stores := w', tick := Suc (tick s),
              events := events s @ [ForwardBatch (Inr (min N (unforwarded (stores s))))]\<rparr>)"
    by (simp add: call_forward_batch_def fb)
  ultimately show ?thesis using rest(1) by blast
qed

lemma drain_ready_running: "drain_ready rt out N w \<Longrightarrow> running out t"
  unfolding drain_ready_def by blast

lemma drain_done:
  assumes "drain_ready rt out N (stores s)" and "unforwarded (stores s) = 0"
  shows "\<exists>s'. drain rt out s tot = (Inr tot, s') \<and>
     events s' = events s @ [ForwardBatch (Inr 0)] \<and>
     total_batches s' = total_batches s \<and> total_forwarded s' = total_forwarded s \<and>
     total_errors s' = total_errors s \<and> pg_conn s' = pg_conn s \<and> ch_client s' = ch_client s \<and>
     unforwarded (stores s') = 0 \<and> tick s' = Suc (tick s)"
proof -
  from call_forward_batch_ready[OF assms(1)] assms(2) obtain w' where
    c: "call_forward_batch rt out s =
          (Inr 0, s\<lparr>stores := w', tick := Suc (tick s),
                     events := events s @ [ForwardBatch (Inr 0)]\<rparr>)"
    and u: "unforwarded w' = 0" by auto
  have "drain rt out s tot =
      (Inr tot, s\<lparr>stores := w', tick := Suc (tick s),
                     events := events s @ [ForwardBatch (Inr 0)]\<rparr>)"
    by (subst drain.simps) (simp add: drain_ready_running[OF assms(1)] c)
  with u show ?thesis by simp
qed

lemma drain_more:
  assumes "drain_ready rt out N (stores s)" and "0 < min N (unforwarded (stores s))"
  shows "\<exists>s1. drain rt out s tot = drain rt out s1 (tot + min N (unforwarded (stores s))) \<and>
     drain_ready rt out N (stores s1) \<and>
     unforwarded (stores s1) = unforwarded (stores s) - N \<and>
     events s1 = events s @ [ForwardBatch (Inr (min N (unforwarded (stores s))))] \<and>
     total_batches s1 = total_batches s + 1 \<and>
     total_forwarded s1 = total_forwarded s + min N (unforwarded (stores s)) \<and>
     total_errors s1 = total_errors s \<and> pg_conn s1 = pg_conn s \<and> ch_client s1 = ch_client s \<and>
     tick s1 = Suc (tick s)"
proof -
  define c where "c = min N (unforwarded (stores s))"
  have c0: "c \<noteq> 0" using assms(2) unfolding c_def by simp
  from call_forward_batch_ready[OF assms(1)] obtain w' where
    call: "call_forward_batch rt out s =
          (Inr c, s\<lparr>stores := w', tick := Suc (tick s),
                     events := events s @ [ForwardBatch (Inr c)]\<rparr>)"
    and u: "unforwarded w' = unforwarded (stores s) - N" and r: "drain_ready rt out N w'"
    unfolding c_def by blast
  define s1 where "s1 = count_batch out (tick s) c
               (s\<lparr>stores := w', tick := Suc (tick s),
                   events := events s @ [ForwardBatch (Inr c)]\<rparr>)"
  have "drain rt out s tot = drain rt out s1 (tot + c)"
    unfolding s1_def using c0
    by (subst drain.simps) (simp add: drain_ready_running[OF assms(1)] call)
  moreover have "stores s1 = w'" "events s1 = events s @ [ForwardBatch (Inr c)]"
    "total_batches s1 = total_batches s + 1" "total_forwarded s1 = total_forwarded s + c"
    "total_errors s1 = total_errors s" "pg_conn s1 = pg_conn s" "ch_client s1 = ch_client s"
    "tick s1 = Suc (tick s)"
    by (simp_all add: count_batch_def s1_def)
  ultimately have "drain rt out s tot = drain rt out s1 (tot + c) \<and>
     drain_ready rt out N (stores s1) \<and>
     unforwarded (stores s1) = unforwarded (stores s) - N \<and>
     events s1 = events s @ [ForwardBatch (Inr c)] \<and>
     total_batches s1 = total_batches s + 1 \<and>
     total_forwarded s1 = total_forwarded s + c \<and>
     total_errors s1 = total_errors s \<and> pg_conn s1 = pg_conn s \<and> ch_client s1 = ch_client s \<and>
     tick s1 = Suc (tick s)"
    using u r by simp
  then show ?thesis unfolding c_def by (rule exI)
qed

lemma drain_counts:
  assumes "drain_ready rt out N (stores s)" and "R < N"
    and "unforwarded (stores s) = K * N + R"
  shows "\<exists>s'. drain rt out s tot = (Inr (tot + K * N + R), s') \<and>
     events s' = events s @ map (\<lambda>n. ForwardBatch (Inr n))
                   (replicate K N @ (if R = 0 then [] else [R]) @ [0]) \<and>
     total_batches s' = total_batches s + K + (if R = 0 then 0 else 1) \<and>
     total_forwarded s' = total_forwarded s + K * N + R \<and>
     total_errors s' = total_errors s \<and> pg_conn s' = pg_conn s \<and> ch_client s' = ch_client s \<and>
     unforwarded (stores s') = 0 \<and>
     tick s' = tick s + K + (if R = 0 then 0 else 1) + 1"
  using assms
proof (induction K arbitrary: s tot)
  case 0
  show ?case
  proof (cases "R = 0")
    case True
    with 0 drain_done[of rt out N s tot] show ?thesis by auto
  next
    case False
    with 0 have m: "min N (unforwarded (stores s)) = R" by simp
    with False have "0 < min N (unforwarded (stores s))" by simp
    from drain_more[OF "0.prems"(1) this, of tot] obtain s1 where s1:
      "drain rt out s tot = drain rt out s1 (tot + R)" "drain_ready rt out N (stores s1)"
      "unforwarded (stores s1) = unforwarded (stores s) - N"
      "events s1 = events s @ [ForwardBatch (Inr R)]"
      "total_batches s1 = total_batches s + 1" "total_forwarded s1 = total_forwarded s + R"
      "total_errors s1 = total_errors s" "pg_conn s1 = pg_conn s" "ch_client s1 = ch_client s"
      "tick s1 = Suc (tick s)"
      unfolding m by blast
    from s1(3) 0 have "unforwarded (stores s1) = 0" by simp
    from drain_done[OF s1(2) this, of "tot + R"] obtain s' where s':
      "drain rt out s1 (tot + R) = (Inr (tot + R), s')"
      "events s' = events s1 @ [ForwardBatch (Inr 0)]"
      "total_batches s' = total_batches s1" "total_forwarded s' = total_forwarded s1"
      "total_errors s' = total_errors s1" "pg_conn s' = pg_conn s1" "ch_client s' = ch_client s1"
      "unforwarded (stores s') = 0" "tick s' = Suc (tick s1)"
      by blast
    from s1 s' False show ?thesis by (intro exI[of _ s']) simp
  qed
next
  case (Suc K)
  from Suc.prems have m: "min N (unforwarded (stores s)) = N" by simp
  from Suc.prems(2) have "0 < N" by simp
  with m have "0 < min N (unforwarded (stores s))" by simp
  from drain_more[OF Suc.prems(1) this, of tot] obtain s1 where s1:
    "drain rt out s tot = drain rt out s1 (tot + N)" "drain_ready rt out N (stores s1)"
    "unforwarded (stores s1) = unforwarded (stores s) - N"
    "events s1 = events s @ [ForwardBatch (Inr N)]"
    "total_batches s1 = total_batches s + 1" "total_forwarded s1 = total_forwarded s + N"
    "total_errors s1 = total_errors s" "pg_conn s1 = pg_conn s" "ch_client s1 = ch_client s"
    "tick s1 = Suc (tick s)"
    unfolding m by blast
  from s1(3) Suc.prems(3) have "unforwarded (stores s1) = K * N + R" by simp
  from Suc.IH[OF s1(2) Suc.prems(2) this, of "tot + N"] obtain s' where s':
    "drain rt out s1 (tot + N) = (Inr (tot + N + K * N + R), s')"
    "events s' = events s1 @ map (\<lambda>n. ForwardBatch (Inr n))
                   (replicate K N @ (if R = 0 then [] else [R]) @ [0])"
    "total_batches s' = total_batches s1 + K + (if R = 0 then 0 else 1)"
    "total_forwarded s' = total_forwarded s1 + K * N + R"
    "total_errors s' = total_errors s1" "pg_conn s' = pg_conn s1" "ch_client s' = ch_client s1"
    "unforwarded (stores s') = 0"
    "tick s' = tick s1 + K + (if R = 0 then 0 else 1) + 1"
    by blast
  from s1 s' show ?case by (intro exI[of _ s']) (simp add: algebra_simps)
qed

lemma ceiling_div:
  assumes "R < (N::nat)"
  shows "(K * N + R + N - 1) div N = K + (if R = 0 then 0 else 1)"
proof (cases "R = 0")
  case True
  have "(K * N + R + N - 1) div N = K"
  proof (rule div_nat_eqI)
    show "N * K \<le> K * N + R + N - 1" using assms by (simp add: algebra_simps)
    show "K * N + R + N - 1 < N * Suc K" using assms True by (simp add: algebra_simps)
  qed
  with True show ?thesis by simp
next
  case False
  have "(K * N + R + N - 1) div N = Suc K"
  proof (rule div_nat_eqI)
    show "N * Suc K \<le> K * N + R + N - 1" using assms False by (simp add: algebra_simps)
    show "K * N + R + N - 1 < N * Suc (Suc K)" using assms by (simp add: algebra_simps)
  qed
  with False show ?thesis by simp
qed

text \<open>
  C6 (as amended). On the poll path, with \<open>running\<close> set throughout, a batch
  size N that fits a bigint and K N + R rows to forward (R < N), in a drain in
  which nothing fails (no call to a store raises, the keys of \<open>radacct\<close> are
  unique and every row to forward transforms without an exception), the drain
  loop makes K cycles that return N, one more that returns R when R > 0, and
  then exactly one cycle that returns 0 and ends the loop: the number of
  non-empty cycles, counted by \<open>total_batches\<close>, is the ceiling of
  (K N + R) / N. All K N + R rows are forwarded, none is left, and no error is
  counted.
\<close>

theorem poll_drain_cycles:
  assumes "\<forall>t. running out t \<and> \<not> fetch_raises (cycle out t) \<and>
             \<not> insert_raises (cycle out t) \<and> \<not> mark_raises (cycle out t)"
    and "BATCH_SIZE rt = int N" and "int N < 2 ^ 63" and "R < N"
    and "distinct (map (\<lambda>x. radacctid (cols x)) (radacct (stores s)))"
    and "\<forall>x\<in>set (radacct (stores s)). \<not> forwarded_to_ch x \<longrightarrow>
           (\<forall>now. \<exists>c. transform rt now (select_columns x) = Inr c)"
    and "unforwarded (stores s) = K * N + R"
  shows "\<exists>s'. drain rt out s 0 = (Inr (K * N + R), s') \<and> poll_cycle rt out s = Some s' \<and>
     events s' = events s @ map (\<lambda>n. ForwardBatch (Inr n))
                   (replicate K N @ (if R = 0 then [] else [R]) @ [0]) \<and>
     total_batches s' = total_batches s + (K * N + R + N - 1) div N \<and>
     total_forwarded s' = total_forwarded s + K * N + R \<and>
     total_errors s' = total_errors s \<and>
     unforwarded (stores s') = 0"
proof -
  have r: "drain_ready rt out N (stores s)"
    unfolding drain_ready_def using assms(1,2,3,5,6) by blast
  from drain_counts[OF r assms(4,7), of 0] obtain s' where s':
    "drain rt out s 0 = (Inr (0 + K * N + R), s')"
    "events s' = events s @ map (\<lambda>n. ForwardBatch (Inr n))
                   (replicate K N @ (if R = 0 then [] else [R]) @ [0])"
    "total_batches s' = total_batches s + K + (if R = 0 then 0 else 1)"
    "total_forwarded s' = total_forwarded s + K * N + R"
    "total_errors s' = total_errors s" "unforwarded (stores s') = 0"
    by blast
  from s'(1) have d: "drain rt out s 0 = (Inr (K * N + R), s')" by simp
  then have p: "poll_cycle rt out s = Some s'" by (simp add: poll_cycle_def)
  have b: "total_batches s' = total_batches s + (K * N + R + N - 1) div N"
    using s'(3) ceiling_div[OF assms(4), of K] by simp
  from d p s'(2) b s'(4,5,6) show ?thesis by blast
qed

lemma w0_rows:
  "x \<in> set (radacct w0) \<Longrightarrow> \<exists>i fw. x = stored_row i fw"
  by (auto simp: w0_def)

theorem poll_drain_cycles_witness:
  "\<exists>s'. drain rt0 out0 s0 0 = (Inr 3, s') \<and> poll_cycle rt0 out0 s0 = Some s' \<and>
     events s' = [ForwardBatch (Inr 2), ForwardBatch (Inr 1), ForwardBatch (Inr 0)] \<and>
     total_batches s' = 2 \<and> total_forwarded s' = 3 \<and> unforwarded (stores s') = 0"
proof -
  have 1: "\<forall>t. running out0 t \<and> \<not> fetch_raises (cycle out0 t) \<and>
             \<not> insert_raises (cycle out0 t) \<and> \<not> mark_raises (cycle out0 t)"
    by (simp add: out0_def env_ok_def)
  have 2: "BATCH_SIZE rt0 = int 2" by (simp add: rt0_def)
  have b: "int 2 < 2 ^ 63" by simp
  have 3: "(1::nat) < 2" by simp
  have 4: "distinct (map (\<lambda>x. radacctid (cols x)) (radacct (stores s0)))"
    by (simp add: s0_def w0_def stored_row_simps)
  have 5: "\<forall>x\<in>set (radacct (stores s0)). \<not> forwarded_to_ch x \<longrightarrow>
           (\<forall>now. \<exists>c. transform rt0 now (select_columns x) = Inr c)"
  proof (intro ballI impI allI)
    fix x now assume "x \<in> set (radacct (stores s0))"
    then have "x \<in> set (radacct w0)" by (simp add: s0_def)
    from w0_rows[OF this] obtain i fw where "x = stored_row i fw" by blast
    then show "\<exists>c. transform rt0 now (select_columns x) = Inr c"
      by (simp add: transform_stored_row)
  qed
  have 6: "unforwarded (stores s0) = 1 * 2 + 1"
    by (simp add: unforwarded_def s0_def w0_def stored_row_simps)
  from poll_drain_cycles[OF 1 2 b 3 4 5 6] obtain s' where
    "drain rt0 out0 s0 0 = (Inr (1 * 2 + 1), s')" "poll_cycle rt0 out0 s0 = Some s'"
    "events s' = events s0 @ map (\<lambda>n. ForwardBatch (Inr n))
                   (replicate 1 2 @ (if (1::nat) = 0 then [] else [1]) @ [0])"
    "total_batches s' = total_batches s0 + (1 * 2 + 1 + 2 - 1) div 2"
    "total_forwarded s' = total_forwarded s0 + 1 * 2 + 1"
    "unforwarded (stores s') = 0"
    by blast
  then show ?thesis by (intro exI[of _ s']) (simp add: s0_def)
qed

text \<open>The drain on the example data when every insert raises.\<close>

lemma drain_sink_down:
  "drain rt0 out_sink_down s0 0 =
     (Inl ChError, s0\<lparr>tick := 1, events := [ForwardBatch (Inl ChError)]\<rparr>)"
proof -
  have "call_forward_batch rt0 out_sink_down s0 =
     (Inl ChError, s0\<lparr>tick := 1, events := [ForwardBatch (Inl ChError)]\<rparr>)"
    using forward_batch_w0_insert_fails
    by (simp add: call_forward_batch_def out_sink_down_def out0_def s0_def)
  then show ?thesis
    by (subst drain.simps) (simp add: out_sink_down_def out0_def s0_def)
qed

text \<open>
  C6 as stated fails when a call to a store raises: with \<open>running\<close> set
  throughout, batch size 2 and 1 * 2 + 1 rows to forward, but an insert that
  raises, the drain makes one cycle, which raises, and no non-empty cycle, and
  no cycle returns 0.
\<close>

theorem drain_failing_sink_counterexample:
  "running out_sink_down = (\<lambda>t. True) \<and> BATCH_SIZE rt0 = 2 \<and>
   unforwarded (stores s0) = 1 * 2 + 1 \<and>
   drain rt0 out_sink_down s0 0 =
     (Inl ChError, s0\<lparr>tick := 1, events := [ForwardBatch (Inl ChError)]\<rparr>) \<and>
   total_batches (s0\<lparr>tick := 1, events := [ForwardBatch (Inl ChError)]\<rparr>) = total_batches s0"
proof -
  have "running out_sink_down = (\<lambda>t. True)" by (simp add: out_sink_down_def out0_def)
  moreover have "BATCH_SIZE rt0 = 2" by (rule BATCH_SIZE_rt0)
  moreover have "unforwarded (stores s0) = 1 * 2 + 1"
    by (simp add: unforwarded_def s0_def w0_def stored_row_simps)
  moreover have "total_batches (s0\<lparr>tick := 1, events := [ForwardBatch (Inl ChError)]\<rparr>)
      = total_batches s0" by simp
  ultimately show ?thesis using drain_sink_down by (intro conjI)
qed

section \<open>Properties of the error paths of the main loop\<close>

text \<open>
  Both forwarding paths on the same failure: every fetch raises, the sink is
  reachable, and an attempt on the source would succeed at once.
\<close>

lemma call_source_down:
  "call_forward_batch rt0 out_source_down s0 =
     (Inl PgError, s0\<lparr>tick := 1, events := [ForwardBatch (Inl PgError)]\<rparr>)"
  by (simp add: call_forward_batch_def forward_batch_def out_source_down_def out0_def
      env_ok_def s0_def)

lemma on_notify_source_down:
  "on_notify rt0 out_source_down s0 =
     Some (s0\<lparr>total_errors := 1, ch_client := 2, tick := 2,
              events := [ForwardBatch (Inl PgError), ConnectCh]\<rparr>)"
proof -
  have "connect_clickhouse (running out_source_down) (ch_connect out_source_down) 1
          [ForwardBatch (Inl PgError)]
        = Some (Inr 2, 2, [ForwardBatch (Inl PgError), ConnectCh])"
    by (subst connect_clickhouse_step(2)[where c = 2])
       (simp_all add: out_source_down_def out0_def)
  then show ?thesis
    unfolding on_notify_def call_source_down by (simp add: Let_def s0_def)
qed

lemma drain_source_down:
  "drain rt0 out_source_down s0 0 =
     (Inl PgError, s0\<lparr>tick := 1, events := [ForwardBatch (Inl PgError)]\<rparr>)"
  unfolding drain.simps[of rt0 out_source_down s0 0] call_source_down
  by (simp add: out_source_down_def out0_def s0_def)

lemma poll_cycle_source_down:
  "poll_cycle rt0 out_source_down s0 =
     Some (s0\<lparr>total_errors := 1, pg_conn := 1, ch_client := 2, tick := 3,
              events := [ForwardBatch (Inl PgError), ClosePg, ConnectPg, Listen, ConnectCh]\<rparr>)"
proof -
  have pg: "connect_postgres (running out_source_down) (pg_connect out_source_down) 1
          [ForwardBatch (Inl PgError), ClosePg]
        = Some (Inr 1, 2, [ForwardBatch (Inl PgError), ClosePg, ConnectPg])"
    by (subst connect_postgres_step(2)[where c = 1])
       (simp_all add: out_source_down_def out0_def)
  have ch: "connect_clickhouse (running out_source_down) (ch_connect out_source_down) 2
          [ForwardBatch (Inl PgError), ClosePg, ConnectPg, Listen]
        = Some (Inr 2, 3, [ForwardBatch (Inl PgError), ClosePg, ConnectPg, Listen, ConnectCh])"
    by (subst connect_clickhouse_step(2)[where c = 2])
       (simp_all add: out_source_down_def out0_def)
  have l: "\<not> listen_raises out_source_down 2" by (simp add: out_source_down_def out0_def)
  show ?thesis
    unfolding poll_cycle_def drain_source_down using pg ch l
    by (simp add: reconnect_def Let_def s0_def)
qed

text \<open>
  C7. With the source failing (the fetch raises) and a notification handled,
  the error counter goes up by one and the handler attempts the sink only:
  \<open>pg_conn\<close> is the connection it was and no attempt on the source is made,
  although one would have succeeded. The poll path, on the same failure, counts
  the error, closes \<open>pg_conn\<close>, reacquires the source, issues LISTEN and
  reacquires the sink.
\<close>

theorem notify_path_reconnects_sink_only:
  "fetch_raises (cycle out_source_down (tick s0)) \<and>
   call_forward_batch rt0 out_source_down s0 =
     (Inl PgError, s0\<lparr>tick := 1, events := [ForwardBatch (Inl PgError)]\<rparr>) \<and>
   pg_connect out_source_down 1 = Some 1 \<and>
   on_notify rt0 out_source_down s0 =
     Some (s0\<lparr>total_errors := 1, ch_client := 2, tick := 2,
              events := [ForwardBatch (Inl PgError), ConnectCh]\<rparr>) \<and>
   pg_conn (s0\<lparr>total_errors := 1, ch_client := 2, tick := 2,
              events := [ForwardBatch (Inl PgError), ConnectCh]\<rparr>) = pg_conn s0 \<and>
   poll_cycle rt0 out_source_down s0 =
     Some (s0\<lparr>total_errors := 1, pg_conn := 1, ch_client := 2, tick := 3,
              events := [ForwardBatch (Inl PgError), ClosePg, ConnectPg, Listen, ConnectCh]\<rparr>)"
proof -
  have "fetch_raises (cycle out_source_down (tick s0))" "pg_connect out_source_down 1 = Some 1"
    by (simp_all add: out_source_down_def out0_def env_ok_def)
  moreover have "pg_conn (s0\<lparr>total_errors := 1, ch_client := 2, tick := 2,
              events := [ForwardBatch (Inl PgError), ConnectCh]\<rparr>) = pg_conn s0"
    by simp
  ultimately show ?thesis
    using call_source_down on_notify_source_down poll_cycle_source_down by (intro conjI)
qed

end
